theory Spec2Isabelle
  imports Main "HOL-Library.Word"
begin

section \<open>GaussianLib: fixed-size matrices and 3D vectors\<close>

text \<open>
  A shallow embedding of \<^verbatim>\<open>include/Gauss/Matrix.h\<close> and \<^verbatim>\<open>include/Gauss/Vector3.h\<close>.

  The scalar type \<open>T\<close> of the templates is a type variable; its arithmetic is the
  arithmetic of the type class instance (\<open>32 word\<close> for \<^verbatim>\<open>unsigned int\<close>, \<open>int\<close> for
  an integer type that never overflows). The template parameters \<open>Rows\<close> and \<open>Cols\<close>
  are natural-number arguments of every operation, and the array member
  \<^verbatim>\<open>T m_[Rows*Cols]\<close> is a list whose length the theorems assume to be \<open>Rows * Cols\<close>.
  Indices are \<^verbatim>\<open>std::size_t\<close> values below the array size, so they are modelled
  as natural numbers.
\<close>

subsection \<open>Build options, failures\<close>

text \<open>
  The two preprocessor switches the headers test. A field is \<open>True\<close> when the macro is
  defined for the build.
\<close>

record build =
  GS_ROW_MAJOR_STORAGE :: bool
  GS_DISABLE_AUTO_INIT :: bool

text \<open>
  Two builds: no macro defined (column-major storage, zero-filled default construction),
  and only \<^verbatim>\<open>GS_ROW_MAJOR_STORAGE\<close> defined.
\<close>

definition default_build :: build where
  "default_build = \<lparr>GS_ROW_MAJOR_STORAGE = False, GS_DISABLE_AUTO_INIT = False\<rparr>"

definition row_major :: build where
  "row_major = \<lparr>GS_ROW_MAJOR_STORAGE = True, GS_DISABLE_AUTO_INIT = False\<rparr>"

text \<open>
  \<open>AssertionFailed\<close> is the abort of a failed \<^verbatim>\<open>GS_ASSERT\<close>; \<open>OutOfBounds\<close> is an access
  to \<^verbatim>\<open>m_[i]\<close> outside the array and \<open>DivisionByZero\<close> an integer division by zero, both
  of which C++ leaves undefined.
\<close>

datatype error = AssertionFailed | OutOfBounds | DivisionByZero

definition bindE :: "error + 'a \<Rightarrow> ('a \<Rightarrow> error + 'b) \<Rightarrow> error + 'b" where
  "bindE m f = (case m of Inl e \<Rightarrow> Inl e | Inr v \<Rightarrow> f v)"

text \<open>
  Modelled from the spec: the macro \<^verbatim>\<open>GS_ASSERT\<close> of \<^verbatim>\<open>Assert.h\<close>, which the two headers
  include and do not define. The spec calls the check a debug-only assertion whose failure aborts;
  the model is the checking build. Every theorem below that returns \<open>Inr\<close> shows that
  no assertion fires, so the result is also the one of a build without the checks.
\<close>

definition GS_ASSERT :: "bool \<Rightarrow> error + unit" where
  "GS_ASSERT cond = (if cond then Inr () else Inl AssertionFailed)"

subsection \<open>The array member\<close>

definition arr_read :: "'a list \<Rightarrow> nat \<Rightarrow> error + 'a" where
  "arr_read m i = (if i < length m then Inr (m ! i) else Inl OutOfBounds)"

definition arr_write :: "'a list \<Rightarrow> nat \<Rightarrow> 'a \<Rightarrow> error + 'a list" where
  "arr_write m i v = (if i < length m then Inr (m[i := v]) else Inl OutOfBounds)"

subsection \<open>Loops\<close>

text \<open>\<^verbatim>\<open>for (std::size_t i = a; i < n; ++i) body\<close>, stopping at the first failure.\<close>

function for_range :: "nat \<Rightarrow> nat \<Rightarrow> (nat \<Rightarrow> 's \<Rightarrow> error + 's) \<Rightarrow> 's \<Rightarrow> error + 's" where
  "for_range i n body s =
     (if i < n then bindE (body i s) (for_range (Suc i) n body) else Inr s)"
  by pat_completeness auto
termination
  by (relation "measure (\<lambda>(i, n, body, s). n - i)") auto

declare for_range.simps [simp del]

text \<open>
  The macro \<^verbatim>\<open>__GS_FOREACH_ROW_COL__(r, c)\<close>: rows outside under row-major storage,
  columns outside otherwise.
\<close>

definition FOREACH_ROW_COL ::
  "build \<Rightarrow> nat \<Rightarrow> nat \<Rightarrow> (nat \<Rightarrow> nat \<Rightarrow> 's \<Rightarrow> error + 's) \<Rightarrow> 's \<Rightarrow> error + 's" where
  "FOREACH_ROW_COL b Rows Cols body s =
     (if GS_ROW_MAJOR_STORAGE b
      then for_range 0 Rows (\<lambda>r. for_range 0 Cols (\<lambda>c. body r c)) s
      else for_range 0 Cols (\<lambda>c. for_range 0 Rows (\<lambda>r. body r c)) s)"

subsection \<open>Element access\<close>

text \<open>The physical offset of \<^verbatim>\<open>operator () (row, col)\<close>.\<close>

definition offset :: "build \<Rightarrow> nat \<Rightarrow> nat \<Rightarrow> nat \<Rightarrow> nat \<Rightarrow> nat" where
  "offset b Rows Cols row col =
     (if GS_ROW_MAJOR_STORAGE b then row * Cols + col else col * Rows + row)"

text \<open>
  \<^verbatim>\<open>operator () (row, col)\<close> returns a reference: the two assertions, then the slot.
  \<open>Matrix_get\<close> reads through it, \<open>Matrix_set\<close> assigns through it.
\<close>

definition Matrix_ref :: "build \<Rightarrow> nat \<Rightarrow> nat \<Rightarrow> nat \<Rightarrow> nat \<Rightarrow> error + nat" where
  "Matrix_ref b Rows Cols row col =
     bindE (GS_ASSERT (row < Rows)) (\<lambda>_.
     bindE (GS_ASSERT (col < Cols)) (\<lambda>_.
     Inr (offset b Rows Cols row col)))"

definition Matrix_get :: "build \<Rightarrow> nat \<Rightarrow> nat \<Rightarrow> 'a list \<Rightarrow> nat \<Rightarrow> nat \<Rightarrow> error + 'a" where
  "Matrix_get b Rows Cols m row col = bindE (Matrix_ref b Rows Cols row col) (arr_read m)"

definition Matrix_set ::
  "build \<Rightarrow> nat \<Rightarrow> nat \<Rightarrow> 'a list \<Rightarrow> nat \<Rightarrow> nat \<Rightarrow> 'a \<Rightarrow> error + 'a list" where
  "Matrix_set b Rows Cols m row col v =
     bindE (Matrix_ref b Rows Cols row col) (\<lambda>i. arr_write m i v)"

text \<open>The value found at logical index \<open>(row, col)\<close> of a well-formed matrix.\<close>

definition entry :: "build \<Rightarrow> nat \<Rightarrow> nat \<Rightarrow> 'a list \<Rightarrow> nat \<Rightarrow> nat \<Rightarrow> 'a" where
  "entry b Rows Cols m row col = m ! offset b Rows Cols row col"

subsection \<open>Construction, assignment, element-wise operators\<close>

text \<open>
  A \<^verbatim>\<open>Matrix(UninitializeTag)\<close> does nothing: the object holds whatever its storage
  held. That indeterminate content is an argument \<open>uninit\<close> of every operation that
  creates a matrix, and the theorems hold for each such content.
\<close>

definition Reset :: "nat \<Rightarrow> nat \<Rightarrow> 'a::zero list \<Rightarrow> error + 'a list" where
  "Reset Rows Cols this = for_range 0 (Rows * Cols) (\<lambda>i m. arr_write m i 0) this"

text \<open>The default constructor \<^verbatim>\<open>Matrix()\<close>.\<close>

definition Matrix_default :: "build \<Rightarrow> nat \<Rightarrow> nat \<Rightarrow> 'a::zero list \<Rightarrow> error + 'a list" where
  "Matrix_default b Rows Cols uninit =
     (if \<not> GS_DISABLE_AUTO_INIT b then Reset Rows Cols uninit else Inr uninit)"

text \<open>\<^verbatim>\<open>operator = (const ThisType& rhs)\<close>.\<close>

definition Matrix_assign :: "nat \<Rightarrow> nat \<Rightarrow> 'a list \<Rightarrow> 'a list \<Rightarrow> error + 'a list" where
  "Matrix_assign Rows Cols this rhs =
     for_range 0 (Rows * Cols)
       (\<lambda>i m. bindE (arr_read rhs i) (\<lambda>v. arr_write m i v)) this"

text \<open>The copy constructor \<^verbatim>\<open>Matrix(const ThisType& rhs)\<close>: \<^verbatim>\<open>*this = rhs\<close>.\<close>

definition Matrix_copy :: "nat \<Rightarrow> nat \<Rightarrow> 'a list \<Rightarrow> 'a list \<Rightarrow> error + 'a list" where
  "Matrix_copy Rows Cols uninit rhs = Matrix_assign Rows Cols uninit rhs"












subsection \<open>Identity and transposition\<close>

text \<open>
  \<^verbatim>\<open>LoadIdentity\<close>, \<^verbatim>\<open>Transpose\<close>, \<^verbatim>\<open>operator *= (const ThisType&)\<close>, \<^verbatim>\<open>Trace\<close>,
  \<^verbatim>\<open>Inverse\<close>, \<^verbatim>\<open>MakeInverse\<close> and \<^verbatim>\<open>RotateFree\<close> compile only when
  \<open>Rows = Cols\<close> (a \<^verbatim>\<open>static_assert\<close>); their theorems take the matrix as \<open>N \<times> N\<close>.
\<close>

definition LoadIdentity :: "build \<Rightarrow> nat \<Rightarrow> nat \<Rightarrow> 'a::zero_neq_one list \<Rightarrow> error + 'a list" where
  "LoadIdentity b Rows Cols this =
     FOREACH_ROW_COL b Rows Cols
       (\<lambda>r c m. Matrix_set b Rows Cols m r c (if r = c then 1 else 0)) this"

definition Identity :: "build \<Rightarrow> nat \<Rightarrow> nat \<Rightarrow> 'a::zero_neq_one list \<Rightarrow> error + 'a list" where
  "Identity b Rows Cols uninit =
     bindE (Matrix_default b Rows Cols uninit) (\<lambda>result. LoadIdentity b Rows Cols result)"

text \<open>\<^verbatim>\<open>Transposed\<close>: the result is a \<^verbatim>\<open>Matrix<T, Cols, Rows>\<close>.\<close>

definition Transposed :: "build \<Rightarrow> nat \<Rightarrow> nat \<Rightarrow> 'a::zero list \<Rightarrow> 'a list \<Rightarrow> error + 'a list" where
  "Transposed b Rows Cols uninit this =
     bindE (Matrix_default b Cols Rows uninit)
       (FOREACH_ROW_COL b Rows Cols
          (\<lambda>r c result. bindE (Matrix_get b Rows Cols this r c)
                           (\<lambda>v. Matrix_set b Cols Rows result c r v)))"

text \<open>\<^verbatim>\<open>std::swap(m_[p], m_[q])\<close>.\<close>

definition swap_elems :: "nat \<Rightarrow> nat \<Rightarrow> 'a list \<Rightarrow> error + 'a list" where
  "swap_elems p q m =
     bindE (arr_read m p) (\<lambda>tmp.
     bindE (arr_read m q) (\<lambda>v.
     bindE (arr_write m p v) (\<lambda>m'.
     arr_write m' q tmp)))"

text \<open>
  The two loops of \<^verbatim>\<open>Transpose\<close>: \<^verbatim>\<open>for (j = 1; j + i < Cols; ++j)\<close> inside
  \<^verbatim>\<open>for (i = 0; i + 1 < Cols; ++i)\<close>.
\<close>

function Transpose_inner :: "nat \<Rightarrow> nat \<Rightarrow> nat \<Rightarrow> 'a list \<Rightarrow> error + 'a list" where
  "Transpose_inner Cols i j m =
     (if j + i < Cols
      then bindE (swap_elems (i * (Cols + 1) + j) ((j + i) * Cols + i) m)
             (Transpose_inner Cols i (Suc j))
      else Inr m)"
  by pat_completeness auto
termination
  by (relation "measure (\<lambda>(Cols, i, j, m). Cols - (j + i))") auto

declare Transpose_inner.simps [simp del]

function Transpose_outer :: "nat \<Rightarrow> nat \<Rightarrow> 'a list \<Rightarrow> error + 'a list" where
  "Transpose_outer Cols i m =
     (if i + 1 < Cols
      then bindE (Transpose_inner Cols i 1 m) (Transpose_outer Cols (Suc i))
      else Inr m)"
  by pat_completeness auto
termination
  by (relation "measure (\<lambda>(Cols, i, m). Cols - (i + 1))") auto

declare Transpose_outer.simps [simp del]

definition Transpose :: "nat \<Rightarrow> nat \<Rightarrow> 'a list \<Rightarrow> error + 'a list" where
  "Transpose Rows Cols this = Transpose_outer Cols 0 this"

text \<open>
  The calls of \<^verbatim>\<open>std::swap\<close> that the two loops of \<^verbatim>\<open>Transpose\<close> make, in order, each as
  its pair of slots, and the effect of a sequence of swaps.
\<close>

definition Transpose_swaps :: "nat \<Rightarrow> (nat \<times> nat) list" where
  "Transpose_swaps Cols =
     concat (map (\<lambda>i. map (\<lambda>j. (i * (Cols + 1) + j, (j + i) * Cols + i)) [1..<Cols - i])
               [0..<Cols - 1])"

fun swap_all :: "(nat \<times> nat) list \<Rightarrow> 'a list \<Rightarrow> error + 'a list" where
  "swap_all [] m = Inr m"
| "swap_all ((p, q) # ps) m = bindE (swap_elems p q m) (swap_all ps)"


subsection \<open>Matrix product\<close>

text \<open>The statement \<^verbatim>\<open>result(r, c) += lhs(r, i)*rhs(i, c)\<close>.\<close>

definition mul_accumulate ::
  "build \<Rightarrow> nat \<Rightarrow> nat \<Rightarrow> nat \<Rightarrow> 'a::{plus,times} list \<Rightarrow> 'a list \<Rightarrow> nat \<Rightarrow> nat \<Rightarrow> nat
     \<Rightarrow> 'a list \<Rightarrow> error + 'a list" where
  "mul_accumulate b Rows ColsRows Cols lhs rhs r c i result =
     bindE (Matrix_get b Rows ColsRows lhs r i) (\<lambda>a.
     bindE (Matrix_get b ColsRows Cols rhs i c) (\<lambda>a'.
     bindE (Matrix_get b Rows Cols result r c) (\<lambda>acc.
     Matrix_set b Rows Cols result r c (acc + a * a'))))"

text \<open>
  The free \<^verbatim>\<open>operator * (const Matrix<T, Rows, ColsRows>&, const Matrix<T, ColsRows, Cols>&)\<close>.
\<close>

definition Matrix_mul ::
  "build \<Rightarrow> nat \<Rightarrow> nat \<Rightarrow> nat \<Rightarrow> 'a::{zero,plus,times} list \<Rightarrow> 'a list \<Rightarrow> 'a list
     \<Rightarrow> error + 'a list" where
  "Matrix_mul b Rows ColsRows Cols uninit lhs rhs =
     for_range 0 Rows
       (\<lambda>r. for_range 0 Cols
          (\<lambda>c result.
             bindE (Matrix_set b Rows Cols result r c 0)
               (for_range 0 ColsRows (mul_accumulate b Rows ColsRows Cols lhs rhs r c))))
       uninit"


subsection \<open>The initializer chain\<close>

record 'a Initializer =
  ini_matrix :: "'a list"
  ini_element :: nat

text \<open>
  The fields are the members \<^verbatim>\<open>matrix_\<close> and \<^verbatim>\<open>element_\<close>. The member \<^verbatim>\<open>matrix_\<close> is a
  reference to the matrix being filled; the record carries that matrix, and the matrix
  after the chain is the \<open>ini_matrix\<close> of the last initializer.
\<close>

definition Initializer_comma ::
  "build \<Rightarrow> nat \<Rightarrow> nat \<Rightarrow> 'a Initializer \<Rightarrow> 'a \<Rightarrow> error + 'a Initializer" where
  "Initializer_comma b Rows Cols ini nextValue =
     bindE (Matrix_set b Rows Cols (ini_matrix ini)
              (ini_element ini div Cols) (ini_element ini mod Cols) nextValue)
       (\<lambda>m. Inr (ini\<lparr>ini_matrix := m, ini_element := ini_element ini + 1\<rparr>))"

text \<open>
  The free \<^verbatim>\<open>operator <<\<close>; \<open>static_cast_T\<close> is the conversion \<^verbatim>\<open>static_cast<T>\<close> from
  the type of the first value.
\<close>

definition Matrix_shl ::
  "build \<Rightarrow> nat \<Rightarrow> nat \<Rightarrow> ('i \<Rightarrow> 'a) \<Rightarrow> 'a list \<Rightarrow> 'i \<Rightarrow> error + 'a Initializer" where
  "Matrix_shl b Rows Cols static_cast_T matrix firstValue =
     (let initializer = \<lparr>ini_matrix = matrix, ini_element = 0\<rparr>
      in Initializer_comma b Rows Cols initializer (static_cast_T firstValue))"

text \<open>The rest of the expression \<^verbatim>\<open>matrix << v0, v1, ..., vk\<close>, left to right.\<close>

fun comma_chain ::
  "build \<Rightarrow> nat \<Rightarrow> nat \<Rightarrow> 'a Initializer \<Rightarrow> 'a list \<Rightarrow> error + 'a Initializer" where
  "comma_chain b Rows Cols ini [] = Inr ini"
| "comma_chain b Rows Cols ini (v # vs) =
     bindE (Initializer_comma b Rows Cols ini v) (\<lambda>ini'. comma_chain b Rows Cols ini' vs)"

definition initializer_chain ::
  "build \<Rightarrow> nat \<Rightarrow> nat \<Rightarrow> ('i \<Rightarrow> 'a) \<Rightarrow> 'a list \<Rightarrow> 'i \<Rightarrow> 'a list \<Rightarrow> error + 'a list" where
  "initializer_chain b Rows Cols static_cast_T matrix v0 vs =
     bindE (Matrix_shl b Rows Cols static_cast_T matrix v0) (\<lambda>ini.
     bindE (comma_chain b Rows Cols ini vs) (\<lambda>ini'. Inr (ini_matrix ini')))"

subsection \<open>Operations that call the algebra collaborators\<close>



text \<open>\<^verbatim>\<open>MakeInverse\<close> returns the flag together with the matrix left in \<^verbatim>\<open>*this\<close>.\<close>

definition MakeInverse ::
  "nat \<Rightarrow> nat \<Rightarrow> ('a list \<Rightarrow> 'a list \<Rightarrow> bool \<times> 'a list) \<Rightarrow> 'a list \<Rightarrow> 'a list
     \<Rightarrow> error + bool \<times> 'a list" where
  "MakeInverse Rows Cols Inverse_fn uninit this =
     bindE (Matrix_copy Rows Cols uninit this) (\<lambda>inp. Inr (Inverse_fn this inp))"

text \<open>
  The const member \<^verbatim>\<open>Inverse\<close> returns the object it was called on, as it is after
  the call, together with the returned matrix.
\<close>

definition Inverse ::
  "nat \<Rightarrow> nat \<Rightarrow> ('a list \<Rightarrow> 'a list \<Rightarrow> bool \<times> 'a list) \<Rightarrow> 'a list \<Rightarrow> 'a list \<Rightarrow> 'a list
     \<Rightarrow> error + 'a list \<times> 'a list" where
  "Inverse Rows Cols Inverse_fn uninit uninit' this =
     bindE (Matrix_copy Rows Cols uninit this) (\<lambda>inv.
     bindE (MakeInverse Rows Cols Inverse_fn uninit' inv) (\<lambda>(ok, inv').
     Inr (this, inv')))"

text \<open>
  Modelled from the spec: the contract of the collaborator \<^verbatim>\<open>Gs::Inverse\<close>, which the
  two headers call and do not define. The spec: \<^verbatim>\<open>Inverse(out, in) -> bool\<close> writes the inverse into \<open>out\<close>
  and returns true if \<open>in\<close> is invertible, or returns false and leaves \<open>out\<close> in an
  unspecified state if singular. \<open>X\<close> is the inverse of \<open>A\<close> when both products are the
  identity; \<open>Inverse_contract\<close> says that one call honours the contract.
\<close>

definition is_inverse_of ::
  "build \<Rightarrow> nat \<Rightarrow> 'a::{zero_neq_one,plus,times} list \<Rightarrow> 'a list \<Rightarrow> bool" where
  "is_inverse_of b N X A =
     (length X = N * N
      \<and> Matrix_mul b N N N (replicate (N * N) 0) A X = Identity b N N (replicate (N * N) 0)
      \<and> Matrix_mul b N N N (replicate (N * N) 0) X A = Identity b N N (replicate (N * N) 0))"

definition invertible :: "build \<Rightarrow> nat \<Rightarrow> 'a::{zero_neq_one,plus,times} list \<Rightarrow> bool" where
  "invertible b N A = (\<exists>X. is_inverse_of b N X A)"

definition Inverse_contract ::
  "build \<Rightarrow> nat \<Rightarrow> ('a::{zero_neq_one,plus,times} list \<Rightarrow> 'a list \<Rightarrow> bool \<times> 'a list)
     \<Rightarrow> 'a list \<Rightarrow> 'a list \<Rightarrow> bool" where
  "Inverse_contract b N Inverse_fn out inp =
     ((invertible b N inp \<longrightarrow>
         fst (Inverse_fn out inp) \<and> is_inverse_of b N (snd (Inverse_fn out inp)) inp)
      \<and> (\<not> invertible b N inp \<longrightarrow> \<not> fst (Inverse_fn out inp)))"

subsection \<open>Agreement of two builds\<close>

text \<open>
  Two matrices, one in each of two builds, agree when \<^verbatim>\<open>operator ()\<close> reads the same
  value from both at every logical index; two results agree when both are matrices
  that agree.
\<close>

definition same_logical :: "build \<Rightarrow> build \<Rightarrow> nat \<Rightarrow> nat \<Rightarrow> 'a list \<Rightarrow> 'a list \<Rightarrow> bool" where
  "same_logical b1 b2 Rows Cols m1 m2 =
     (length m1 = Rows * Cols \<and> length m2 = Rows * Cols
      \<and> (\<forall>row<Rows. \<forall>col<Cols.
            Matrix_get b1 Rows Cols m1 row col = Matrix_get b2 Rows Cols m2 row col))"

definition same_results ::
  "build \<Rightarrow> build \<Rightarrow> nat \<Rightarrow> nat \<Rightarrow> error + 'a list \<Rightarrow> error + 'a list \<Rightarrow> bool" where
  "same_results b1 b2 Rows Cols x1 x2 =
     (case (x1, x2) of (Inr m1, Inr m2) \<Rightarrow> same_logical b1 b2 Rows Cols m1 m2 | _ \<Rightarrow> False)"

subsection \<open>Vector3T\<close>

record 'a Vector3T =
  x :: 'a
  y :: 'a
  z :: 'a

text \<open>
  The division of an unsigned integer scalar type: undefined for a zero divisor, the
  truncated quotient otherwise.
\<close>

definition unsigned_div :: "'w::len word \<Rightarrow> 'w word \<Rightarrow> error + 'w word" where
  "unsigned_div a d = (if d = 0 then Inl DivisionByZero else Inr (a div d))"

text \<open>
  \<^verbatim>\<open>operator *= (const Vector3T<T>&)\<close> and \<^verbatim>\<open>operator /= (const Vector3T<T>&)\<close>. The
  division of the scalar type \<open>T\<close> is the argument \<open>div_T\<close> of the latter; the three
  statements run in order, and each reads only its own component of \<open>rhs\<close>.
\<close>

definition Vector3T_mul_assign :: "'a::times Vector3T \<Rightarrow> 'a Vector3T \<Rightarrow> 'a Vector3T" where
  "Vector3T_mul_assign this rhs =
     this\<lparr>x := x this * x rhs, y := y this * y rhs, z := z this * z rhs\<rparr>"

definition Vector3T_div_assign ::
  "('a \<Rightarrow> 'a \<Rightarrow> error + 'a) \<Rightarrow> 'a Vector3T \<Rightarrow> 'a Vector3T \<Rightarrow> error + 'a Vector3T" where
  "Vector3T_div_assign div_T this rhs =
     bindE (div_T (x this) (x rhs)) (\<lambda>q. let this = this\<lparr>x := q\<rparr> in
     bindE (div_T (y this) (y rhs)) (\<lambda>q. let this = this\<lparr>y := q\<rparr> in
     bindE (div_T (z this) (z rhs)) (\<lambda>q. Inr (this\<lparr>z := q\<rparr>))))"

text \<open>
  The free \<^verbatim>\<open>operator / (const Vector3T<T>& lhs, const Vector3T<T>& rhs)\<close>: it copies
  \<open>lhs\<close> and applies \<^verbatim>\<open>result *= rhs\<close>.
\<close>

definition Vector3T_div :: "'a::times Vector3T \<Rightarrow> 'a Vector3T \<Rightarrow> 'a Vector3T" where
  "Vector3T_div lhs rhs = (let result = lhs in Vector3T_mul_assign result rhs)"

section \<open>Supporting lemmas\<close>

subsection \<open>Failure propagation and loops\<close>

lemma bindE_Inr [simp]: "bindE (Inr v) f = f v"
  by (simp add: bindE_def)

lemma bindE_Inl [simp]: "bindE (Inl e) f = Inl e"
  by (simp add: bindE_def)

lemma bindE_eq_Inr: "bindE m f = Inr w \<longleftrightarrow> (\<exists>v. m = Inr v \<and> f v = Inr w)"
  by (cases m) simp_all

lemma for_range_done: "\<not> i < n \<Longrightarrow> for_range i n body s = Inr s"
  by (simp add: for_range.simps)

lemma for_range_step:
  "i < n \<Longrightarrow> for_range i n body s = bindE (body i s) (for_range (Suc i) n body)"
  by (subst for_range.simps) simp

lemma for_range_rule:
  assumes "I i s" and "i \<le> n"
    and step: "\<And>k t. i \<le> k \<Longrightarrow> k < n \<Longrightarrow> I k t \<Longrightarrow> \<exists>t'. body k t = Inr t' \<and> I (Suc k) t'"
  shows "\<exists>t. for_range i n body s = Inr t \<and> I n t"
  using assms
proof (induction "n - i" arbitrary: i s)
  case 0
  then have "i = n" by simp
  with "0.prems"(1) show ?case by (simp add: for_range_done)
next
  case (Suc d)
  then have lt: "i < n" by simp
  from Suc.prems(3)[OF le_refl lt Suc.prems(1)]
  obtain t' where t': "body i s = Inr t'" "I (Suc i) t'" by blast
  have "\<exists>t. for_range (Suc i) n body t' = Inr t \<and> I n t"
  proof (rule Suc.hyps(1))
    show "d = n - Suc i" using Suc.hyps(2) by simp
    show "I (Suc i) t'" by (rule t')
    show "Suc i \<le> n" using lt by simp
    show "\<And>k t. Suc i \<le> k \<Longrightarrow> k < n \<Longrightarrow> I k t \<Longrightarrow> \<exists>t'. body k t = Inr t' \<and> I (Suc k) t'"
      using Suc.prems(3) by simp
  qed
  then show ?case by (simp add: for_range_step[OF lt] t')
qed

lemma cells_Suc_row: "{..<r} \<times> {..<C} \<union> {r} \<times> {..<C} = {..<Suc r} \<times> {..<C::nat}"
  by (auto simp: less_Suc_eq)

lemma cells_Suc_col:
  "insert (r, c) (A \<union> {r} \<times> {..<c}) = A \<union> {r} \<times> {..<Suc c}"
  by (auto simp: less_Suc_eq)

lemma for_range2_rule:
  assumes init: "I {} s"
    and step: "\<And>r c D t. r < R \<Longrightarrow> c < C \<Longrightarrow> (r, c) \<notin> D \<Longrightarrow> D \<subseteq> {..<R} \<times> {..<C}
                 \<Longrightarrow> I D t \<Longrightarrow> \<exists>t'. body r c t = Inr t' \<and> I (insert (r, c) D) t'"
  shows "\<exists>t. for_range 0 R (\<lambda>r. for_range 0 C (body r)) s = Inr t \<and> I ({..<R} \<times> {..<C}) t"
proof -
  have inner: "\<exists>t'. for_range 0 C (body r) t = Inr t' \<and> I ({..<Suc r} \<times> {..<C}) t'"
    if r: "r < R" and t: "I ({..<r} \<times> {..<C}) t" for r t
  proof -
    have "\<exists>t'. for_range 0 C (body r) t = Inr t'
            \<and> I ({..<r} \<times> {..<C} \<union> {r} \<times> {..<C}) t'"
    proof (rule for_range_rule[where I = "\<lambda>c. I ({..<r} \<times> {..<C} \<union> {r} \<times> {..<c})"])
      show "I ({..<r} \<times> {..<C} \<union> {r} \<times> {..<0}) t" using t by simp
      show "0 \<le> C" by simp
      fix c u assume c: "c < C" and u: "I ({..<r} \<times> {..<C} \<union> {r} \<times> {..<c}) u"
      have "\<exists>t'. body r c u = Inr t'
              \<and> I (insert (r, c) ({..<r} \<times> {..<C} \<union> {r} \<times> {..<c})) t'"
        using r c by (intro step[OF r c _ _ u]) auto
      then show "\<exists>t'. body r c u = Inr t' \<and> I ({..<r} \<times> {..<C} \<union> {r} \<times> {..<Suc c}) t'"
        by (simp only: cells_Suc_col)
    qed
    then show ?thesis by (simp only: cells_Suc_row)
  qed
  have "\<exists>t. for_range 0 R (\<lambda>r. for_range 0 C (body r)) s = Inr t \<and> I ({..<R} \<times> {..<C}) t"
  proof (rule for_range_rule[where I = "\<lambda>r. I ({..<r} \<times> {..<C})"])
    show "I ({..<0} \<times> {..<C}) s" using init by simp
    show "0 \<le> R" by simp
    show "\<And>k t. 0 \<le> k \<Longrightarrow> k < R \<Longrightarrow> I ({..<k} \<times> {..<C}) t
            \<Longrightarrow> \<exists>t'. for_range 0 C (body k) t = Inr t' \<and> I ({..<Suc k} \<times> {..<C}) t'"
      using inner by blast
  qed
  then show ?thesis .
qed

lemma swap_cells: "(\<lambda>(c, r). (r, c)) ` ({..<C} \<times> {..<R}) = {..<R} \<times> {..<C::nat}"
  by force

lemma FOREACH_ROW_COL_rule:
  assumes init: "I {} s"
    and step: "\<And>r c D t. r < R \<Longrightarrow> c < C \<Longrightarrow> (r, c) \<notin> D \<Longrightarrow> D \<subseteq> {..<R} \<times> {..<C}
                 \<Longrightarrow> I D t \<Longrightarrow> \<exists>t'. body r c t = Inr t' \<and> I (insert (r, c) D) t'"
  shows "\<exists>t. FOREACH_ROW_COL b R C body s = Inr t \<and> I ({..<R} \<times> {..<C}) t"
proof (cases "GS_ROW_MAJOR_STORAGE b")
  case True
  then show ?thesis
    using for_range2_rule[of I s R C body, OF init step] by (simp add: FOREACH_ROW_COL_def)
next
  case False
  let ?J = "\<lambda>D. I ((\<lambda>(c, r). (r, c)) ` D)"
  have "\<exists>t. for_range 0 C (\<lambda>c. for_range 0 R (\<lambda>r. body r c)) s = Inr t
          \<and> ?J ({..<C} \<times> {..<R}) t"
  proof (rule for_range2_rule[where I = ?J])
    show "?J {} s" using init by simp
    fix c r D t
    assume c: "c < C" and r: "r < R" and nin: "(c, r) \<notin> D"
      and sub: "D \<subseteq> {..<C} \<times> {..<R}" and t: "?J D t"
    have "\<exists>t'. body r c t = Inr t' \<and> I (insert (r, c) ((\<lambda>(c, r). (r, c)) ` D)) t'"
      using nin sub by (intro step[OF r c _ _ t]) auto
    then show "\<exists>t'. body r c t = Inr t' \<and> ?J (insert (c, r) D) t'" by simp
  qed
  then show ?thesis using False by (simp add: FOREACH_ROW_COL_def swap_cells)
qed

subsection \<open>Logical and physical indices\<close>

lemma offset_less:
  assumes "r < R" and "c < C"
  shows "offset b R C r c < R * C"
proof -
  have "r * C + c < R * C"
  proof -
    have "r * C + c < r * C + C" using assms by simp
    also have "\<dots> = Suc r * C" by simp
    also have "\<dots> \<le> R * C" using assms by (intro mult_le_mono1) simp
    finally show ?thesis .
  qed
  moreover have "c * R + r < R * C"
  proof -
    have "c * R + r < c * R + R" using assms by simp
    also have "\<dots> = Suc c * R" by simp
    also have "\<dots> \<le> C * R" using assms by (intro mult_le_mono1) simp
    finally show ?thesis by (simp add: mult.commute)
  qed
  ultimately show ?thesis by (simp add: offset_def)
qed

lemma offset_inj:
  assumes "r < R" "c < C" "r' < R" "c' < C"
    and eq: "offset b R C r c = offset b R C r' c'"
  shows "r = r' \<and> c = c'"
proof (cases "GS_ROW_MAJOR_STORAGE b")
  case True
  with eq have e: "r * C + c = r' * C + c'" by (simp add: offset_def)
  have "(r * C + c) div C = r" "(r' * C + c') div C = r'"
       "(r * C + c) mod C = c" "(r' * C + c') mod C = c'"
    using assms by simp_all
  with e show ?thesis by metis
next
  case False
  with eq have e: "c * R + r = c' * R + r'" by (simp add: offset_def)
  have "(c * R + r) div R = c" "(c' * R + r') div R = c'"
       "(c * R + r) mod R = r" "(c' * R + r') mod R = r'"
    using assms by simp_all
  with e show ?thesis by metis
qed

lemma offset_surj:
  assumes "p < R * C"
  shows "\<exists>r<R. \<exists>c<C. offset b R C r c = p"
proof (cases "GS_ROW_MAJOR_STORAGE b")
  case True
  have C: "0 < C" using assms by (cases C) simp_all
  have "p div C < R" using assms C by (simp add: less_mult_imp_div_less)
  moreover have "p mod C < C" using C by simp
  moreover have "offset b R C (p div C) (p mod C) = p" using True by (simp add: offset_def)
  ultimately show ?thesis by blast
next
  case False
  have R: "0 < R" using assms by (cases R) simp_all
  have "p div R < C" using assms R by (simp add: less_mult_imp_div_less mult.commute)
  moreover have "p mod R < R" using R by simp
  moreover have "offset b R C (p mod R) (p div R) = p" using False by (simp add: offset_def)
  ultimately show ?thesis by blast
qed

lemma entries_eqI:
  assumes "length m = R * C" and "length m' = R * C"
    and "\<And>r c. r < R \<Longrightarrow> c < C \<Longrightarrow> entry b R C m r c = entry b R C m' r c"
  shows "m = m'"
proof (rule nth_equalityI)
  show "length m = length m'" using assms by simp
  fix p assume "p < length m"
  then have "p < R * C" using assms by simp
  then obtain r c where "r < R" "c < C" "offset b R C r c = p"
    using offset_surj by blast
  then show "m ! p = m' ! p" using assms(3)[of r c] by (simp add: entry_def)
qed

lemma Matrix_get_ok:
  "r < R \<Longrightarrow> c < C \<Longrightarrow> length m = R * C \<Longrightarrow> Matrix_get b R C m r c = Inr (entry b R C m r c)"
  by (simp add: Matrix_get_def Matrix_ref_def GS_ASSERT_def arr_read_def entry_def offset_less)

lemma Matrix_set_ok:
  "r < R \<Longrightarrow> c < C \<Longrightarrow> length m = R * C
     \<Longrightarrow> Matrix_set b R C m r c v = Inr (m[offset b R C r c := v])"
  by (simp add: Matrix_set_def Matrix_ref_def GS_ASSERT_def arr_write_def offset_less)

lemma entry_update:
  assumes "r < R" "c < C" "r' < R" "c' < C" "length m = R * C"
  shows "entry b R C (m[offset b R C r c := v]) r' c'
           = (if r' = r \<and> c' = c then v else entry b R C m r' c')"
proof (cases "r' = r \<and> c' = c")
  case True
  then show ?thesis using assms offset_less[of r R c C b] by (simp add: entry_def)
next
  case False
  then have "offset b R C r c \<noteq> offset b R C r' c'"
    using offset_inj[of r R c C r' c' b] assms by blast
  then show ?thesis by (simp add: entry_def if_not_P[OF False])
qed

lemma cells_insert_update:
  assumes r: "r < R" and c: "c < C" and sub: "D \<subseteq> {..<R} \<times> {..<C}"
    and len: "length t = R * C"
    and old: "\<forall>(r', c')\<in>D. entry b R C t r' c' = f r' c'"
    and v: "f r c = v"
  shows "\<forall>(r', c')\<in>insert (r, c) D. entry b R C (t[offset b R C r c := v]) r' c' = f r' c'"
proof (clarify)
  fix r' c' assume mem: "(r', c') \<in> insert (r, c) D"
  then have r': "r' < R" and c': "c' < C" using r c sub by auto
  show "entry b R C (t[offset b R C r c := v]) r' c' = f r' c'"
  proof (cases "r' = r \<and> c' = c")
    case True
    then show ?thesis using v entry_update[OF r c r' c' len, of b v] by simp
  next
    case False
    then have "(r', c') \<in> D" using mem by auto
    then have "entry b R C t r' c' = f r' c'" using old by auto
    then show ?thesis by (simp add: entry_update[OF r c r' c' len] if_not_P[OF False])
  qed
qed

subsection \<open>The product, cell by cell\<close>

lemma accumulate_loop:
  fixes lhs rhs res :: "'a::semiring_0 list"
  assumes r: "r < R" and c: "c < C"
    and lhs: "length lhs = R * K" and rhs: "length rhs = K * C" and res: "length res = R * C"
  shows "for_range 0 K (mul_accumulate b R K C lhs rhs r c) res
           = Inr (res[offset b R C r c :=
                    entry b R C res r c + (\<Sum>i<K. entry b R K lhs r i * entry b K C rhs i c)])"
proof -
  let ?p = "offset b R C r c"
  let ?f = "\<lambda>i. entry b R K lhs r i * entry b K C rhs i c"
  let ?I = "\<lambda>k t. t = res[?p := entry b R C res r c + sum ?f {..<k}]"
  have p: "?p < length res" using offset_less[OF r c] res by simp
  have "\<exists>t. for_range 0 K (mul_accumulate b R K C lhs rhs r c) res = Inr t \<and> ?I K t"
  proof (rule for_range_rule[where I = ?I])
    show "?I 0 res" by (simp add: entry_def)
    show "0 \<le> K" by simp
    fix k t assume k: "k < K" and t: "?I k t"
    have len: "length t = R * C" using t res by simp
    have cur: "entry b R C t r c = entry b R C res r c + sum ?f {..<k}"
      using t p by (simp add: entry_def)
    have "mul_accumulate b R K C lhs rhs r c k t
            = Inr (t[?p := entry b R C t r c + ?f k])"
      by (simp add: mul_accumulate_def Matrix_get_ok Matrix_set_ok r c k lhs rhs len)
    also have "t[?p := entry b R C t r c + ?f k]
                 = res[?p := entry b R C res r c + sum ?f {..<Suc k}]"
      by (subst cur, subst t) (simp add: add.assoc)
    finally show "\<exists>t'. mul_accumulate b R K C lhs rhs r c k t = Inr t' \<and> ?I (Suc k) t'"
      by simp
  qed
  then show ?thesis by simp
qed

lemma Matrix_mul_cell:
  fixes lhs rhs res :: "'a::semiring_0 list"
  assumes r: "r < R" and c: "c < C"
    and lhs: "length lhs = R * K" and rhs: "length rhs = K * C" and res: "length res = R * C"
  shows "bindE (Matrix_set b R C res r c 0)
           (for_range 0 K (mul_accumulate b R K C lhs rhs r c))
         = Inr (res[offset b R C r c := (\<Sum>i<K. entry b R K lhs r i * entry b K C rhs i c)])"
proof -
  let ?p = "offset b R C r c"
  have p: "?p < length res" using offset_less[OF r c] res by simp
  have "entry b R C (res[?p := 0]) r c = 0" using p by (simp add: entry_def)
  then show ?thesis
    using accumulate_loop[OF r c lhs rhs, of "res[?p := 0]" b] res
    by (simp add: Matrix_set_ok r c)
qed

lemma Matrix_mul_result:
  fixes lhs rhs uninit :: "'a::semiring_0 list"
  assumes lhs: "length lhs = R * K" and rhs: "length rhs = K * C"
    and uninit: "length uninit = R * C"
  shows "\<exists>result. Matrix_mul b R K C uninit lhs rhs = Inr result \<and> length result = R * C
           \<and> (\<forall>r<R. \<forall>c<C. entry b R C result r c
                 = (\<Sum>i<K. entry b R K lhs r i * entry b K C rhs i c))"
proof -
  let ?dot = "\<lambda>r c. \<Sum>i<K. entry b R K lhs r i * entry b K C rhs i c"
  let ?I = "\<lambda>D t. length t = R * C \<and> (\<forall>(r, c)\<in>D. entry b R C t r c = ?dot r c)"
  have "\<exists>t. for_range 0 R (\<lambda>r. for_range 0 C (\<lambda>c result.
               bindE (Matrix_set b R C result r c 0)
                 (for_range 0 K (mul_accumulate b R K C lhs rhs r c)))) uninit = Inr t
          \<and> ?I ({..<R} \<times> {..<C}) t"
  proof (rule for_range2_rule[where I = ?I])
    show "?I {} uninit" using uninit by simp
    fix r c D t
    assume r: "r < R" and c: "c < C" and sub: "D \<subseteq> {..<R} \<times> {..<C}" and t: "?I D t"
    have len: "length t = R * C" using t by simp
    have "?I (insert (r, c) D) (t[offset b R C r c := ?dot r c])"
      using cells_insert_update[OF r c sub len, of b ?dot] t by simp
    then show "\<exists>t'. bindE (Matrix_set b R C t r c 0)
                   (for_range 0 K (mul_accumulate b R K C lhs rhs r c)) = Inr t'
                 \<and> ?I (insert (r, c) D) t'"
      by (simp only: Matrix_mul_cell[OF r c lhs rhs len]) blast
  qed
  then show ?thesis by (auto simp: Matrix_mul_def)
qed



subsection \<open>The initializer chain, value by value\<close>

lemma linear_cell:
  assumes "c < C"
  shows "(r = e div C \<and> c = e mod C) \<longleftrightarrow> r * C + c = (e::nat)"
proof
  assume "r = e div C \<and> c = e mod C"
  then show "r * C + c = e" by (simp add: mult.commute)
next
  assume "r * C + c = e"
  then have "e div C = r" "e mod C = c" using assms by auto
  then show "r = e div C \<and> c = e mod C" by simp
qed

lemma Initializer_comma_ok:
  assumes len: "length (ini_matrix ini) = R * C" and e: "ini_element ini < R * C"
  shows "\<exists>m'. Initializer_comma b R C ini v
                  = Inr (ini\<lparr>ini_matrix := m', ini_element := ini_element ini + 1\<rparr>)
           \<and> length m' = R * C
           \<and> (\<forall>r<R. \<forall>c<C. entry b R C m' r c
                 = (if r * C + c = ini_element ini then v else entry b R C (ini_matrix ini) r c))"
proof -
  let ?e = "ini_element ini"
  have C: "0 < C" using e by (cases C) simp_all
  have r: "?e div C < R" using e C by (simp add: less_mult_imp_div_less)
  have c: "?e mod C < C" using C by simp
  let ?m' = "(ini_matrix ini)[offset b R C (?e div C) (?e mod C) := v]"
  have "Initializer_comma b R C ini v
          = Inr (ini\<lparr>ini_matrix := ?m', ini_element := ?e + 1\<rparr>)"
    by (simp add: Initializer_comma_def Matrix_set_ok[OF r c len])
  moreover have "length ?m' = R * C" using len by simp
  moreover have "\<forall>r'<R. \<forall>c'<C. entry b R C ?m' r' c'
                   = (if r' * C + c' = ?e then v else entry b R C (ini_matrix ini) r' c')"
    by (simp add: entry_update[OF r c _ _ len] linear_cell)
  ultimately show ?thesis by blast
qed

lemma comma_chain_ok:
  assumes "length (ini_matrix ini) = R * C" and "ini_element ini + length vs \<le> R * C"
  shows "\<exists>ini'. comma_chain b R C ini vs = Inr ini'
           \<and> ini_element ini' = ini_element ini + length vs
           \<and> length (ini_matrix ini') = R * C
           \<and> (\<forall>r<R. \<forall>c<C. entry b R C (ini_matrix ini') r c
                 = (if ini_element ini \<le> r * C + c \<and> r * C + c < ini_element ini + length vs
                    then vs ! (r * C + c - ini_element ini)
                    else entry b R C (ini_matrix ini) r c))"
  using assms
proof (induction vs arbitrary: ini)
  case Nil
  then show ?case by auto
next
  case (Cons v vs)
  let ?e = "ini_element ini"
  have e: "?e < R * C" using Cons.prems(2) by simp
  from Initializer_comma_ok[OF Cons.prems(1) e, of b v]
  obtain m' where step: "Initializer_comma b R C ini v
                           = Inr (ini\<lparr>ini_matrix := m', ini_element := ?e + 1\<rparr>)"
    and len': "length m' = R * C"
    and ent': "\<forall>r<R. \<forall>c<C. entry b R C m' r c
                 = (if r * C + c = ?e then v else entry b R C (ini_matrix ini) r c)"
    by blast
  let ?ini1 = "ini\<lparr>ini_matrix := m', ini_element := ?e + 1\<rparr>"
  have "\<exists>ini'. comma_chain b R C ?ini1 vs = Inr ini'
           \<and> ini_element ini' = ini_element ?ini1 + length vs
           \<and> length (ini_matrix ini') = R * C
           \<and> (\<forall>r<R. \<forall>c<C. entry b R C (ini_matrix ini') r c
                 = (if ini_element ?ini1 \<le> r * C + c \<and> r * C + c < ini_element ?ini1 + length vs
                    then vs ! (r * C + c - ini_element ?ini1)
                    else entry b R C (ini_matrix ?ini1) r c))"
    using Cons.prems(2) len' by (intro Cons.IH) simp_all
  then obtain ini' where rest: "comma_chain b R C ?ini1 vs = Inr ini'"
    and el: "ini_element ini' = ?e + 1 + length vs"
    and len'': "length (ini_matrix ini') = R * C"
    and ent'': "\<forall>r<R. \<forall>c<C. entry b R C (ini_matrix ini') r c
                 = (if ?e + 1 \<le> r * C + c \<and> r * C + c < ?e + 1 + length vs
                    then vs ! (r * C + c - (?e + 1))
                    else entry b R C m' r c)"
    by auto
  have "comma_chain b R C ini (v # vs) = Inr ini'" using rest by (simp add: step)
  moreover have "ini_element ini' = ?e + length (v # vs)" using el by simp
  moreover have "\<forall>r<R. \<forall>c<C. entry b R C (ini_matrix ini') r c
                 = (if ?e \<le> r * C + c \<and> r * C + c < ?e + length (v # vs)
                    then (v # vs) ! (r * C + c - ?e)
                    else entry b R C (ini_matrix ini) r c)"
  proof (intro allI impI)
    fix r c assume r: "r < R" and c: "c < C"
    let ?n = "r * C + c"
    consider "?n < ?e" | "?n = ?e" | "?e < ?n" by linarith
    then show "entry b R C (ini_matrix ini') r c
                 = (if ?e \<le> ?n \<and> ?n < ?e + length (v # vs)
                    then (v # vs) ! (?n - ?e)
                    else entry b R C (ini_matrix ini) r c)"
    proof cases
      case 1
      then show ?thesis using ent'' ent' r c by simp
    next
      case 2
      then show ?thesis using ent'' ent' r c by simp
    next
      case 3
      then have "(v # vs) ! (?n - ?e) = vs ! (?n - (?e + 1))" by (simp add: nth_Cons')
      then show ?thesis using 3 ent'' ent' r c by simp
    qed
  qed
  ultimately show ?case using len'' by blast
qed

lemma initializer_chain_ok:
  assumes len: "length m = R * C" and n: "length (v0 # vs) \<le> R * C"
  shows "\<exists>m'. initializer_chain b R C static_cast_T m v0 vs = Inr m' \<and> length m' = R * C
           \<and> (\<forall>r<R. \<forall>c<C. entry b R C m' r c
                 = (if r * C + c < length (v0 # vs) then (static_cast_T v0 # vs) ! (r * C + c)
                    else entry b R C m r c))"
proof -
  let ?ini = "\<lparr>ini_matrix = m, ini_element = 0\<rparr>"
  have eq: "initializer_chain b R C static_cast_T m v0 vs
              = bindE (comma_chain b R C ?ini (static_cast_T v0 # vs)) (\<lambda>ini'. Inr (ini_matrix ini'))"
    by (simp add: initializer_chain_def Matrix_shl_def bindE_def split: sum.splits)
  from comma_chain_ok[of ?ini R C "static_cast_T v0 # vs" b] len n
  obtain ini' where "comma_chain b R C ?ini (static_cast_T v0 # vs) = Inr ini'"
    and "length (ini_matrix ini') = R * C"
    and "\<forall>r<R. \<forall>c<C. entry b R C (ini_matrix ini') r c
                 = (if r * C + c < length (static_cast_T v0 # vs)
                    then (static_cast_T v0 # vs) ! (r * C + c)
                    else entry b R C m r c)"
    by auto
  then show ?thesis by (simp add: eq)
qed

subsection \<open>Element-wise loops, identity, transposed\<close>

lemma elementwise_update:
  assumes "i < n" and "length this = n"
  shows "(map f [0..<i] @ drop i this)[i := f i] = map f [0..<Suc i] @ drop (Suc i) this"
proof -
  have "drop i this = this ! i # drop (Suc i) this"
    using assms by (simp add: Cons_nth_drop_Suc)
  then show ?thesis by (simp add: list_update_append)
qed

lemma elementwise_loop:
  assumes len: "length this = n"
    and body: "\<And>i t. i < n \<Longrightarrow> length t = n \<Longrightarrow> t ! i = this ! i \<Longrightarrow> body i t = Inr (t[i := f i])"
  shows "for_range 0 n body this = Inr (map f [0..<n])"
proof -
  let ?I = "\<lambda>i t. t = map f [0..<i] @ drop i this"
  have "\<exists>t. for_range 0 n body this = Inr t \<and> ?I n t"
  proof (rule for_range_rule[where I = ?I])
    show "?I 0 this" by simp
    show "0 \<le> n" by simp
    fix i t assume i: "i < n" and t: "?I i t"
    have lt: "length t = n" using t len i by simp
    have "t ! i = this ! i" using t len i by (simp add: nth_append)
    then have "body i t = Inr (t[i := f i])" using body i lt by simp
    then show "\<exists>t'. body i t = Inr t' \<and> ?I (Suc i) t'"
      using elementwise_update[OF i len, of f] t by simp
  qed
  then show ?thesis using len by simp
qed

lemma Reset_ok:
  assumes "length this = Rows * Cols"
  shows "Reset Rows Cols this = Inr (replicate (Rows * Cols) 0)"
proof -
  have "Reset Rows Cols this = Inr (map (\<lambda>i. 0) [0..<Rows * Cols])"
    unfolding Reset_def by (rule elementwise_loop[OF assms]) (simp add: arr_write_def)
  then show ?thesis by (simp add: map_replicate_const)
qed

lemma Matrix_default_ok:
  assumes "length uninit = Rows * Cols"
  shows "\<exists>m. Matrix_default b Rows Cols uninit = Inr m \<and> length m = Rows * Cols"
  using assms by (simp add: Matrix_default_def Reset_ok)

lemma Matrix_assign_ok:
  assumes lthis: "length this = Rows * Cols" and rhs: "length rhs = Rows * Cols"
  shows "Matrix_assign Rows Cols this rhs = Inr rhs"
proof -
  have "Matrix_assign Rows Cols this rhs = Inr (map (\<lambda>i. rhs ! i) [0..<Rows * Cols])"
    unfolding Matrix_assign_def
    by (rule elementwise_loop[OF lthis]) (simp add: arr_write_def arr_read_def rhs)
  then show ?thesis using rhs map_nth[of rhs] by simp
qed

lemma LoadIdentity_ok:
  assumes len: "length this = Rows * Cols"
  shows "\<exists>t. LoadIdentity b Rows Cols this = Inr t \<and> length t = Rows * Cols
           \<and> (\<forall>r<Rows. \<forall>c<Cols. entry b Rows Cols t r c = (if r = c then 1 else 0))"
proof -
  let ?f = "\<lambda>r c. if r = c then 1 else 0 :: 'a"
  let ?I = "\<lambda>D t. length t = Rows * Cols \<and> (\<forall>(r, c)\<in>D. entry b Rows Cols t r c = ?f r c)"
  have "\<exists>t. FOREACH_ROW_COL b Rows Cols
               (\<lambda>r c m. Matrix_set b Rows Cols m r c (if r = c then 1 else 0)) this = Inr t
          \<and> ?I ({..<Rows} \<times> {..<Cols}) t"
  proof (rule FOREACH_ROW_COL_rule[where I = ?I])
    show "?I {} this" using len by simp
    fix r c D t
    assume r: "r < Rows" and c: "c < Cols" and sub: "D \<subseteq> {..<Rows} \<times> {..<Cols}"
      and t: "?I D t"
    have lt: "length t = Rows * Cols" using t by simp
    have "?I (insert (r, c) D) (t[offset b Rows Cols r c := ?f r c])"
      using cells_insert_update[OF r c sub lt, of b ?f] t by simp
    then show "\<exists>t'. Matrix_set b Rows Cols t r c (if r = c then 1 else 0) = Inr t'
                 \<and> ?I (insert (r, c) D) t'"
      by (simp only: Matrix_set_ok[OF r c lt]) blast
  qed
  then show ?thesis by (auto simp: LoadIdentity_def)
qed

lemma Identity_ok:
  assumes "length uninit = Rows * Cols"
  shows "\<exists>t. Identity b Rows Cols uninit = Inr t \<and> length t = Rows * Cols
           \<and> (\<forall>r<Rows. \<forall>c<Cols. entry b Rows Cols t r c = (if r = c then 1 else 0))"
proof -
  from Matrix_default_ok[OF assms, of b]
  obtain m where "Matrix_default b Rows Cols uninit = Inr m" "length m = Rows * Cols" by blast
  then show ?thesis using LoadIdentity_ok[of m Rows Cols b] by (simp add: Identity_def)
qed

lemma Transposed_ok:
  assumes lthis: "length this = Rows * Cols" and uninit: "length uninit = Cols * Rows"
  shows "\<exists>t. Transposed b Rows Cols uninit this = Inr t \<and> length t = Cols * Rows
           \<and> (\<forall>r<Rows. \<forall>c<Cols. entry b Cols Rows t c r = entry b Rows Cols this r c)"
proof -
  from Matrix_default_ok[OF uninit, of b]
  obtain m where m: "Matrix_default b Cols Rows uninit = Inr m" and lm: "length m = Cols * Rows"
    by blast
  let ?f = "\<lambda>c r. entry b Rows Cols this r c"
  let ?I = "\<lambda>D t. length t = Cols * Rows
              \<and> (\<forall>(c, r)\<in>(\<lambda>(r, c). (c, r)) ` D. entry b Cols Rows t c r = ?f c r)"
  let ?body = "\<lambda>r c result. bindE (Matrix_get b Rows Cols this r c)
                            (\<lambda>v. Matrix_set b Cols Rows result c r v)"
  have "\<exists>t. FOREACH_ROW_COL b Rows Cols ?body m = Inr t \<and> ?I ({..<Rows} \<times> {..<Cols}) t"
  proof (rule FOREACH_ROW_COL_rule[where I = ?I])
    show "?I {} m" using lm by simp
    fix r c D t
    assume r: "r < Rows" and c: "c < Cols" and sub: "D \<subseteq> {..<Rows} \<times> {..<Cols}"
      and t: "?I D t"
    have lt: "length t = Cols * Rows" using t by simp
    have sub': "(\<lambda>(r, c). (c, r)) ` D \<subseteq> {..<Cols} \<times> {..<Rows}" using sub by auto
    have "?I (insert (r, c) D) (t[offset b Cols Rows c r := ?f c r])"
      using cells_insert_update[OF c r sub' lt, of b ?f] t by simp
    then show "\<exists>t'. ?body r c t = Inr t' \<and> ?I (insert (r, c) D) t'"
      by (simp only: Matrix_get_ok[OF r c lthis] bindE_Inr Matrix_set_ok[OF c r lt]) blast
  qed
  then obtain t where "FOREACH_ROW_COL b Rows Cols ?body m = Inr t"
    and "length t = Cols * Rows"
    and "\<forall>(c, r)\<in>(\<lambda>(r, c). (c, r)) ` ({..<Rows} \<times> {..<Cols}). entry b Cols Rows t c r = ?f c r"
    by blast
  then show ?thesis using m by (auto simp: Transposed_def)
qed

lemma sum_identity_left:
  fixes f :: "nat \<Rightarrow> 'a::semiring_1"
  assumes "r < N"
  shows "(\<Sum>i<N. (if r = i then 1 else 0) * f i) = f r"
proof -
  have "(\<Sum>i<N. (if r = i then 1 else 0) * f i) = (\<Sum>i<N. if i = r then f i else 0)"
    by (rule sum.cong) auto
  then show ?thesis using assms by (simp add: sum.delta)
qed

lemma sum_identity_right:
  fixes f :: "nat \<Rightarrow> 'a::semiring_1"
  assumes "c < N"
  shows "(\<Sum>i<N. f i * (if i = c then 1 else 0)) = f c"
proof -
  have "(\<Sum>i<N. f i * (if i = c then 1 else 0)) = (\<Sum>i<N. if i = c then f i else 0)"
    by (rule sum.cong) auto
  then show ?thesis using assms by (simp add: sum.delta)
qed

subsection \<open>In-place transposition\<close>

lemma bindE_cong:
  "m = m' \<Longrightarrow> (\<And>v. m' = Inr v \<Longrightarrow> f v = g v) \<Longrightarrow> bindE m f = bindE m' g"
  by (cases m') simp_all

lemma Transpose_inner_for_range:
  "Transpose_inner Cols i j m
     = for_range j (Cols - i) (\<lambda>j. swap_elems (i * (Cols + 1) + j) ((j + i) * Cols + i)) m"
proof (induction Cols i j m rule: Transpose_inner.induct)
  case (1 Cols i j m)
  show ?case
  proof (cases "j + i < Cols")
    case True
    then have lt: "j < Cols - i" by simp
    show ?thesis
      by (subst Transpose_inner.simps, subst for_range_step[OF lt])
         (simp add: True "1.IH"[OF True] cong: bindE_cong)
  next
    case False
    then have "\<not> j < Cols - i" by simp
    then show ?thesis using False
      by (subst Transpose_inner.simps) (simp add: for_range_done)
  qed
qed

lemma Transpose_outer_for_range:
  "Transpose_outer Cols i m = for_range i (Cols - 1) (\<lambda>i. Transpose_inner Cols i 1) m"
proof (induction Cols i m rule: Transpose_outer.induct)
  case (1 Cols i m)
  show ?case
  proof (cases "i + 1 < Cols")
    case True
    then have lt: "i < Cols - 1" by simp
    have "Transpose_outer Cols i m
            = bindE (Transpose_inner Cols i 1 m) (Transpose_outer Cols (Suc i))"
      using True by (subst Transpose_outer.simps) simp
    also have "\<dots> = bindE (Transpose_inner Cols i 1 m)
                       (for_range (Suc i) (Cols - 1) (\<lambda>i. Transpose_inner Cols i 1))"
      by (rule bindE_cong[OF refl]) (rule "1.IH"[OF True])
    finally show ?thesis by (simp only: for_range_step[OF lt])
  next
    case False
    then have "\<not> i < Cols - 1" by simp
    then show ?thesis using False
      by (subst Transpose_outer.simps) (simp add: for_range_done)
  qed
qed

lemma swap_elems_ok:
  assumes "p < length m" and "q < length m"
  shows "swap_elems p q m = Inr (m[p := m ! q, q := m ! p])"
  using assms by (simp add: swap_elems_def arr_read_def arr_write_def)


lemma offset_row_major: "offset row_major R C r c = r * C + c"
  by (simp add: offset_def row_major_def)

lemma swap_cells_entries:
  assumes len: "length t = N * N" and a: "a < N" and b: "b < N" and u: "u < N" and w: "w < N"
  shows "swap_elems (a * N + b) (b * N + a) t
           = Inr (t[a * N + b := t ! (b * N + a), b * N + a := t ! (a * N + b)])"
    and "entry row_major N N (t[a * N + b := t ! (b * N + a), b * N + a := t ! (a * N + b)]) u w
           = (if u = b \<and> w = a then entry row_major N N t a b
              else if u = a \<and> w = b then entry row_major N N t b a
              else entry row_major N N t u w)"
proof -
  have p: "a * N + b < length t" and q: "b * N + a < length t"
    using offset_less[OF a b, of row_major] offset_less[OF b a, of row_major] len
    by (simp_all add: offset_row_major)
  show "swap_elems (a * N + b) (b * N + a) t
           = Inr (t[a * N + b := t ! (b * N + a), b * N + a := t ! (a * N + b)])"
    by (rule swap_elems_ok[OF p q])
  let ?t1 = "t[offset row_major N N a b := entry row_major N N t b a]"
  have len1: "length ?t1 = N * N" using len by simp
  have "entry row_major N N (?t1[offset row_major N N b a := entry row_major N N t a b]) u w
           = (if u = b \<and> w = a then entry row_major N N t a b
              else if u = a \<and> w = b then entry row_major N N t b a
              else entry row_major N N t u w)"
    by (simp only: entry_update[OF b a u w len1] entry_update[OF a b u w len])
  then show "entry row_major N N (t[a * N + b := t ! (b * N + a), b * N + a := t ! (a * N + b)]) u w
           = (if u = b \<and> w = a then entry row_major N N t a b
              else if u = a \<and> w = b then entry row_major N N t b a
              else entry row_major N N t u w)"
    by (simp add: offset_row_major entry_def)
qed

lemma Transpose_inner_ok:
  assumes len: "length t0 = N * N" and i: "i + 1 < N"
  shows "\<exists>t. Transpose_inner N i 1 t0 = Inr t \<and> length t = N * N
           \<and> (\<forall>a<N. \<forall>b<N. entry row_major N N t a b
                 = (if (a = i \<and> i < b) \<or> (b = i \<and> i < a) then entry row_major N N t0 b a
                    else entry row_major N N t0 a b))"
proof -
  let ?e = "entry row_major N N"
  let ?I = "\<lambda>J t. length t = N * N
              \<and> (\<forall>a<N. \<forall>b<N. ?e t a b
                    = (if (a = i \<and> i < b \<and> b < i + J) \<or> (b = i \<and> i < a \<and> a < i + J)
                       then ?e t0 b a else ?e t0 a b))"
  let ?body = "\<lambda>j. swap_elems (i * (N + 1) + j) ((j + i) * N + i)"
  have "\<exists>t. for_range 1 (N - i) ?body t0 = Inr t \<and> ?I (N - i) t"
  proof (rule for_range_rule[where I = ?I])
    show "?I 1 t0" using len by auto
    show "1 \<le> N - i" using i by simp
    fix j t assume j1: "1 \<le> j" and j: "j < N - i" and t: "?I j t"
    have lt: "length t = N * N" using t by simp
    have ent: "\<And>a b. a < N \<Longrightarrow> b < N \<Longrightarrow> ?e t a b
                 = (if (a = i \<and> i < b \<and> b < i + j) \<or> (b = i \<and> i < a \<and> a < i + j)
                    then ?e t0 b a else ?e t0 a b)"
      using t by simp
    have iN: "i < N" and ijN: "i + j < N" using i j by simp_all
    let ?t' = "t[i * N + (i + j) := t ! ((i + j) * N + i), (i + j) * N + i := t ! (i * N + (i + j))]"
    have idx: "i * (N + 1) + j = i * N + (i + j)" "(j + i) * N + i = (i + j) * N + i"
      by (simp_all add: algebra_simps)
    have run: "?body j t = Inr ?t'"
      unfolding idx by (rule swap_cells_entries(1)[OF lt iN ijN iN iN])
    have "?e ?t' a b
            = (if (a = i \<and> i < b \<and> b < i + Suc j) \<or> (b = i \<and> i < a \<and> a < i + Suc j)
               then ?e t0 b a else ?e t0 a b)" if a: "a < N" and b: "b < N" for a b
      using j1 ent[OF a b] ent[OF iN ijN] ent[OF ijN iN]
      by (simp add: swap_cells_entries(2)[OF lt iN ijN a b]) (auto simp: less_Suc_eq)
    then show "\<exists>t'. ?body j t = Inr t' \<and> ?I (Suc j) t'"
      using run lt by simp
  qed
  then obtain t where "for_range 1 (N - i) ?body t0 = Inr t" and "?I (N - i) t" by blast
  then show ?thesis
    by (simp add: Transpose_inner_for_range)
qed


lemma Transpose_ok:
  assumes len: "length m = N * N"
  shows "\<exists>t. Transpose N N m = Inr t \<and> length t = N * N
           \<and> (\<forall>a<N. \<forall>b<N. entry row_major N N t a b = entry row_major N N m b a)"
proof -
  let ?e = "entry row_major N N"
  let ?I = "\<lambda>I t. length t = N * N
              \<and> (\<forall>a<N. \<forall>b<N. ?e t a b = (if a < I \<or> b < I then ?e m b a else ?e m a b))"
  have "\<exists>t. for_range 0 (N - 1) (\<lambda>i. Transpose_inner N i 1) m = Inr t \<and> ?I (N - 1) t"
  proof (rule for_range_rule[where I = ?I])
    show "?I 0 m" using len by simp
    show "0 \<le> N - 1" by simp
    fix i t assume i: "i < N - 1" and t: "?I i t"
    have lt: "length t = N * N" using t by simp
    have ent: "\<And>a b. a < N \<Longrightarrow> b < N
                 \<Longrightarrow> ?e t a b = (if a < i \<or> b < i then ?e m b a else ?e m a b)"
      using t by simp
    have i1: "i + 1 < N" using i by simp
    from Transpose_inner_ok[OF lt i1]
    obtain t' where run: "Transpose_inner N i 1 t = Inr t'" and lt': "length t' = N * N"
      and ent': "\<And>a b. a < N \<Longrightarrow> b < N \<Longrightarrow> ?e t' a b
                   = (if (a = i \<and> i < b) \<or> (b = i \<and> i < a) then ?e t b a else ?e t a b)"
      by blast
    have "?e t' a b = (if a < Suc i \<or> b < Suc i then ?e m b a else ?e m a b)"
      if a: "a < N" and b: "b < N" for a b
    proof -
      consider "a < i \<or> b < i" | "a = i" "i < b" | "b = i" "i < a" | "a = i" "b = i"
        | "i < a" "i < b"
        by linarith
      then show ?thesis
      proof cases
        case 1
        then have "\<not> ((a = i \<and> i < b) \<or> (b = i \<and> i < a))" by auto
        then have "entry row_major N N t' a b = entry row_major N N t a b"
          by (simp only: ent'[OF a b] if_False)
        then show ?thesis using 1 by (auto simp: ent[OF a b])
      next
        case 2
        then show ?thesis using ent'[OF a b] ent[OF b a] by auto
      next
        case 3
        then show ?thesis using ent'[OF a b] ent[OF b a] by auto
      next
        case 4
        then show ?thesis using ent'[OF a b] ent[OF a b] by auto
      next
        case 5
        then show ?thesis using ent'[OF a b] ent[OF a b] by auto
      qed
    qed
    then show "\<exists>t'. Transpose_inner N i 1 t = Inr t' \<and> ?I (Suc i) t'"
      using run lt' by simp
  qed
  then obtain t where run: "for_range 0 (N - 1) (\<lambda>i. Transpose_inner N i 1) m = Inr t"
    and lt: "length t = N * N"
    and ent: "\<And>a b. a < N \<Longrightarrow> b < N
                \<Longrightarrow> ?e t a b = (if a < N - 1 \<or> b < N - 1 then ?e m b a else ?e m a b)"
    by auto
  have "?e t a b = ?e m b a" if a: "a < N" and b: "b < N" for a b
  proof (cases "a < N - 1 \<or> b < N - 1")
    case True
    then show ?thesis by (simp add: ent[OF a b])
  next
    case False
    then have "a = b" using a b by linarith
    then show ?thesis using ent[OF a b] False by auto
  qed
  then show ?thesis using run lt by (simp add: Transpose_def Transpose_outer_for_range)
qed

lemma entry_row_major:
  assumes "r < N" and "c < N"
  shows "entry b N N m r c
           = (if GS_ROW_MAJOR_STORAGE b then entry row_major N N m r c
              else entry row_major N N m c r)"
  by (simp add: entry_def offset_def row_major_def)

lemma Transpose_entries:
  assumes len: "length m = N * N"
  shows "\<exists>t. Transpose N N m = Inr t \<and> length t = N * N
           \<and> (\<forall>r<N. \<forall>c<N. entry b N N t r c = entry b N N m c r)"
proof -
  from Transpose_ok[OF len]
  obtain t where "Transpose N N m = Inr t" "length t = N * N"
    and "\<And>a b. a < N \<Longrightarrow> b < N \<Longrightarrow> entry row_major N N t a b = entry row_major N N m b a"
    by blast
  then show ?thesis by (simp add: entry_row_major)
qed


lemma bindE_assoc: "bindE (bindE m f) g = bindE m (\<lambda>v. bindE (f v) g)"
  by (cases m) simp_all

lemma swap_all_append: "swap_all (ps @ qs) m = bindE (swap_all ps m) (swap_all qs)"
proof (induction ps arbitrary: m)
  case Nil
  show ?case by simp
next
  case (Cons pq ps)
  obtain p q where pq: "pq = (p, q)" by (cases pq)
  show ?case by (simp add: pq bindE_assoc Cons.IH cong: bindE_cong)
qed

lemma for_range_swaps:
  "for_range j n (\<lambda>j. swap_elems (f j) (g j)) m = swap_all (map (\<lambda>j. (f j, g j)) [j..<n]) m"
proof (induction "n - j" arbitrary: j m)
  case 0
  then show ?case by (simp add: for_range_done)
next
  case (Suc d)
  then have lt: "j < n" and d: "d = n - Suc j" by simp_all
  show ?case
    by (simp add: for_range_step[OF lt] upt_conv_Cons[OF lt] Suc.hyps(1)[OF d] cong: bindE_cong)
qed

lemma for_range_swap_all:
  "for_range i n (\<lambda>i. swap_all (F i)) m = swap_all (concat (map F [i..<n])) m"
proof (induction "n - i" arbitrary: i m)
  case 0
  then show ?case by (simp add: for_range_done)
next
  case (Suc d)
  then have lt: "i < n" and d: "d = n - Suc i" by simp_all
  show ?case
    by (simp add: for_range_step[OF lt] upt_conv_Cons[OF lt] Suc.hyps(1)[OF d] swap_all_append
             cong: bindE_cong)
qed

lemma Transpose_swap_all: "Transpose Rows Cols m = swap_all (Transpose_swaps Cols) m"
proof -
  have inner: "(\<lambda>i. Transpose_inner Cols i 1)
          = (\<lambda>i. swap_all (map (\<lambda>j. (i * (Cols + 1) + j, (j + i) * Cols + i)) [1..<Cols - i]))"
    by (intro ext) (simp only: Transpose_inner_for_range for_range_swaps)
  show ?thesis
    unfolding Transpose_def Transpose_outer_for_range inner for_range_swap_all Transpose_swaps_def
    by (rule refl)
qed

lemma Transpose_swaps_set:
  "set (Transpose_swaps N) = {(a * N + b, b * N + a) | a b. a < b \<and> b < N}"
proof (intro set_eqI iffI)
  fix pq assume "pq \<in> set (Transpose_swaps N)"
  then obtain i j where i: "i < N - 1" and j: "1 \<le> j" "j < N - i"
    and pq: "pq = (i * (N + 1) + j, (j + i) * N + i)"
    by (auto simp: Transpose_swaps_def)
  have "pq = (i * N + (i + j), (i + j) * N + i)" using pq by (simp add: algebra_simps)
  moreover have "i < i + j" "i + j < N" using j by simp_all
  ultimately show "pq \<in> {(a * N + b, b * N + a) | a b. a < b \<and> b < N}" by blast
next
  fix pq assume "pq \<in> {(a * N + b, b * N + a) | a b. a < b \<and> b < N}"
  then obtain a b where ab: "a < b" "b < N" and pq: "pq = (a * N + b, b * N + a)" by blast
  let ?j = "b - a"
  have pq': "pq = (a * (N + 1) + ?j, (?j + a) * N + a)" using ab pq by (simp add: algebra_simps)
  let ?F = "\<lambda>i. map (\<lambda>j. (i * (N + 1) + j, (j + i) * N + i)) [1..<N - i]"
  have j: "?j \<in> set [1..<N - a]" using ab by auto
  have mem: "pq \<in> set (?F a)"
    unfolding set_map pq' by (rule imageI[OF j])
  have a: "a \<in> set [0..<N - 1]" using ab by auto
  have Fa: "?F a \<in> set (map ?F [0..<N - 1])"
    unfolding set_map by (rule imageI[OF a])
  show "pq \<in> set (Transpose_swaps N)"
    unfolding Transpose_swaps_def set_concat using Fa mem by (rule UN_I[where B = set])
qed

lemma swap_pair_inj:
  assumes "a < N" "b < N" "a' < N" "b' < N" and "b * N + a = b' * N + (a'::nat)"
  shows "a = a' \<and> b = b'"
  using offset_inj[of b N a N b' a' row_major] assms by (simp add: offset_row_major)


lemma swap_index_inj:
  fixes i j i' j' N :: nat
  assumes eq: "(i * (N + 1) + j, (j + i) * N + i) = (i' * (N + 1) + j', (j' + i') * N + i')"
    and "j + i < N" and "j' + i' < N"
  shows "i = i' \<and> j = j'"
proof -
  from eq have "(j + i) * N + i = (j' + i') * N + i'" by simp
  moreover have "i < N" using assms(2) by linarith
  moreover have "i' < N" using assms(3) by linarith
  ultimately have "i = i' \<and> j + i = j' + i'"
    using swap_pair_inj[of i N "j + i" i' "j' + i'"] assms by simp
  then show ?thesis by simp
qed

lemma Transpose_swaps_distinct: "distinct (Transpose_swaps N)"
proof -
  let ?G = "\<lambda>i j. (i * (N + 1) + j, (j + i) * N + i)"
  let ?F = "\<lambda>i. map (?G i) [1..<N - i]"
  have row_mem: "\<exists>j. j < N - i \<and> pq = ?G i j" if "pq \<in> set (?F i)" for pq i
    using that by auto
  have "distinct (concat (map ?F [0..<N - 1]))"
  proof (rule distinct_concat)
    have "inj_on ?F (set [0..<N - 1])"
    proof (rule inj_onI)
      fix i i' assume i: "i \<in> set [0..<N - 1]" and eq: "?F i = ?F i'"
      have "1 \<in> set [1..<N - i]" using i by auto
      then have "?G i 1 \<in> set (?F i)" unfolding set_map by (rule imageI)
      then have "?G i 1 \<in> set (?F i')" by (simp only: eq)
      then obtain j' where j': "j' < N - i'" "?G i 1 = ?G i' j'" using row_mem by blast
      have "1 + i < N" using i by auto
      moreover have "j' + i' < N" using j' by simp
      ultimately show "i = i'" using swap_index_inj[OF j'(2)] by simp
    qed
    then show "distinct (map ?F [0..<N - 1])" by (simp add: distinct_map)
  next
    fix ys assume "ys \<in> set (map ?F [0..<N - 1])"
    then obtain i where ys: "ys = ?F i" by auto
    have "inj_on (?G i) (set [1..<N - i])" by (rule inj_onI) simp
    then show "distinct ys" unfolding ys by (simp add: distinct_map)
  next
    fix ys zs
    assume "ys \<in> set (map ?F [0..<N - 1])" "zs \<in> set (map ?F [0..<N - 1])" "ys \<noteq> zs"
    then obtain i i' where ys: "ys = ?F i" and zs: "zs = ?F i'" and ne: "i \<noteq> i'" by auto
    show "set ys \<inter> set zs = {}"
    proof (rule ccontr)
      assume "set ys \<inter> set zs \<noteq> {}"
      then obtain pq where "pq \<in> set (?F i)" "pq \<in> set (?F i')" using ys zs by blast
      then obtain j j' where j: "j < N - i" "pq = ?G i j" and j': "j' < N - i'" "pq = ?G i' j'"
        using row_mem by blast
      have "?G i j = ?G i' j'" using j j' by simp
      moreover have "j + i < N" "j' + i' < N" using j j' by simp_all
      ultimately have "i = i'" using swap_index_inj by blast
      then show False using ne by simp
    qed
  qed
  then show ?thesis by (simp add: Transpose_swaps_def)
qed

lemma Transpose_swaps_pairs_distinct:
  "distinct (map (\<lambda>(p, q). {p, q}) (Transpose_swaps N))"
proof -
  have "inj_on (\<lambda>(p, q). {p, q}) (set (Transpose_swaps N))"
  proof (rule inj_onI)
    fix pq pq' assume "pq \<in> set (Transpose_swaps N)" "pq' \<in> set (Transpose_swaps N)"
      and eq: "(case pq of (p, q) \<Rightarrow> {p, q}) = (case pq' of (p, q) \<Rightarrow> {p, q})"
    then obtain a b a' b' where ab: "a < b" "b < N" and pq: "pq = (a * N + b, b * N + a)"
      and ab': "a' < b'" "b' < N" and pq': "pq' = (a' * N + b', b' * N + a')"
      unfolding Transpose_swaps_set by blast
    from eq have "{a * N + b, b * N + a} = {a' * N + b', b' * N + a'}"
      by (simp add: pq pq')
    then consider "a * N + b = a' * N + b'" | "b * N + a = a' * N + b'"
      by (auto simp: doubleton_eq_iff)
    then show "pq = pq'"
    proof cases
      case 1
      then have "b = b' \<and> a = a'"
        using swap_pair_inj[of b N a b' a'] ab ab' by simp
      then show ?thesis by (simp add: pq pq')
    next
      case 2
      then have "a = b' \<and> b = a'"
        using swap_pair_inj[of a N b b' a'] ab ab' by simp
      then show ?thesis using ab ab' by simp
    qed
  qed
  then show ?thesis by (simp add: distinct_map Transpose_swaps_distinct)
qed

lemma Transpose_swaps_pairs_set:
  "set (map (\<lambda>(p, q). {p, q}) (Transpose_swaps N))
     = {{offset b N N r c, offset b N N c r} | r c. r < c \<and> c < N}"
proof -
  have "set (map (\<lambda>(p, q). {p, q}) (Transpose_swaps N))
          = {{r * N + c, c * N + r} | r c. r < c \<and> c < N}"
    unfolding set_map Transpose_swaps_set by auto
  also have "\<dots> = {{offset b N N r c, offset b N N c r} | r c. r < c \<and> c < N}"
    by (cases "GS_ROW_MAJOR_STORAGE b") (simp_all add: offset_def insert_commute)
  finally show ?thesis .
qed

subsection \<open>Operations that call the algebra collaborators\<close>



lemma Matrix_copy_ok:
  assumes "length uninit = Rows * Cols" and "length rhs = Rows * Cols"
  shows "Matrix_copy Rows Cols uninit rhs = Inr rhs"
  using assms by (simp add: Matrix_copy_def Matrix_assign_ok)

lemma MakeInverse_ok:
  assumes "length this = N * N" and "length uninit = N * N"
  shows "MakeInverse N N Inverse_fn uninit this = Inr (Inverse_fn this this)"
  using assms by (simp add: MakeInverse_def Matrix_copy_ok)

subsection \<open>Agreement of two builds, operation by operation\<close>































lemma same_results_Inr:
  "same_results b1 b2 R C (Inr m1) (Inr m2) = same_logical b1 b2 R C m1 m2"
  by (simp add: same_results_def)






section \<open>Claims\<close>

subsection \<open>Matrix product\<close>



subsection \<open>Initializer chain\<close>

text \<open>
  C5. The chain \<open>matrix << v0, v1, ...\<close> with at most \<open>Rows * Cols\<close> values fails no
  assertion, writes the \<open>n\<close>-th value to the logical slot \<open>(n div Cols, n mod Cols)\<close>
  under either storage layout, and leaves every later slot at its prior value. For a
  \<open>2 \<times> 2\<close> matrix, \<open>m << 1, 2, 3, 4\<close> gives \<open>m(0,0) = 1\<close>, \<open>m(0,1) = 2\<close>, \<open>m(1,0) = 3\<close>,
  \<open>m(1,1) = 4\<close> in every build.
\<close>

theorem initializer_chain_logical_order:
  assumes len: "length m = Rows * Cols" and n: "length (v0 # vs) \<le> Rows * Cols"
  shows "(\<exists>m'. initializer_chain b Rows Cols static_cast_T m v0 vs = Inr m'
            \<and> length m' = Rows * Cols
            \<and> (\<forall>n<length (v0 # vs). Matrix_get b Rows Cols m' (n div Cols) (n mod Cols)
                  = Inr ((static_cast_T v0 # vs) ! n))
            \<and> (\<forall>r<Rows. \<forall>c<Cols. length (v0 # vs) \<le> r * Cols + c
                  \<longrightarrow> Matrix_get b Rows Cols m' r c = Matrix_get b Rows Cols m r c))
       \<and> (\<forall>m2 :: int list. length m2 = 4 \<longrightarrow>
            (\<exists>m'. initializer_chain b' 2 2 id m2 1 [2, 3, 4] = Inr m'
               \<and> Matrix_get b' 2 2 m' 0 0 = Inr 1 \<and> Matrix_get b' 2 2 m' 0 1 = Inr 2
               \<and> Matrix_get b' 2 2 m' 1 0 = Inr 3 \<and> Matrix_get b' 2 2 m' 1 1 = Inr 4))"
proof (intro conjI allI impI)
  from initializer_chain_ok[OF len n, of b static_cast_T]
  obtain m' where run: "initializer_chain b Rows Cols static_cast_T m v0 vs = Inr m'"
    and len': "length m' = Rows * Cols"
    and ent: "\<And>r c. r < Rows \<Longrightarrow> c < Cols \<Longrightarrow> entry b Rows Cols m' r c
                 = (if r * Cols + c < length (v0 # vs)
                    then (static_cast_T v0 # vs) ! (r * Cols + c)
                    else entry b Rows Cols m r c)"
    by blast
  have C: "0 < Cols" using n by (cases Cols) simp_all
  have written: "Matrix_get b Rows Cols m' (k div Cols) (k mod Cols)
                   = Inr ((static_cast_T v0 # vs) ! k)" if k: "k < length (v0 # vs)" for k
  proof -
    have "k < Rows * Cols" using k n by simp
    then have r: "k div Cols < Rows" using C by (simp add: less_mult_imp_div_less)
    have c: "k mod Cols < Cols" using C by simp
    have "k div Cols * Cols + k mod Cols = k" by simp
    then show ?thesis using k by (simp add: Matrix_get_ok[OF r c len'] ent[OF r c])
  qed
  have kept: "Matrix_get b Rows Cols m' r c = Matrix_get b Rows Cols m r c"
    if "r < Rows" "c < Cols" "length (v0 # vs) \<le> r * Cols + c" for r c
    using that by (simp add: Matrix_get_ok len len' ent)
  show "\<exists>m'. initializer_chain b Rows Cols static_cast_T m v0 vs = Inr m'
          \<and> length m' = Rows * Cols
          \<and> (\<forall>n<length (v0 # vs). Matrix_get b Rows Cols m' (n div Cols) (n mod Cols)
                = Inr ((static_cast_T v0 # vs) ! n))
          \<and> (\<forall>r<Rows. \<forall>c<Cols. length (v0 # vs) \<le> r * Cols + c
                \<longrightarrow> Matrix_get b Rows Cols m' r c = Matrix_get b Rows Cols m r c)"
    using run len' written kept by blast
next
  fix m2 :: "int list" assume m2: "length m2 = 4"
  from initializer_chain_ok[of m2 2 2 1 "[2, 3, 4]" b' id] m2
  obtain m' where run: "initializer_chain b' 2 2 id m2 1 [2, 3, 4] = Inr m'"
    and len': "length m' = 2 * 2"
    and ent: "\<And>r c. r < 2 \<Longrightarrow> c < 2 \<Longrightarrow> entry b' 2 2 m' r c
                 = (if r * 2 + c < 4 then [1, 2, 3, 4] ! (r * 2 + c) else entry b' 2 2 m2 r c)"
    by auto
  show "\<exists>m'. initializer_chain b' 2 2 id m2 1 [2, 3, 4] = Inr m'
          \<and> Matrix_get b' 2 2 m' 0 0 = Inr 1 \<and> Matrix_get b' 2 2 m' 0 1 = Inr 2
          \<and> Matrix_get b' 2 2 m' 1 0 = Inr 3 \<and> Matrix_get b' 2 2 m' 1 1 = Inr 4"
    using run len' by (simp add: Matrix_get_ok ent)
qed

theorem initializer_chain_logical_order_witness:
  "(\<exists>m'. initializer_chain default_build 2 3 id [9, 9, 9, 9, 9, 9 :: int] 1 [2, 3, 4] = Inr m'
      \<and> Matrix_get default_build 2 3 m' 1 0 = Inr 4
      \<and> Matrix_get default_build 2 3 m' 1 1 = Inr 9)
   \<and> (\<exists>m'. initializer_chain row_major 2 2 id [9, 9, 9, 9] 1 [2, 3, 4] = Inr m'
         \<and> Matrix_get row_major 2 2 m' 1 0 = Inr (3 :: int))"
proof -
  have h: "length [9, 9, 9, 9, 9, 9 :: int] = 2 * 3" "length ((1::int) # [2, 3, 4]) \<le> 2 * 3"
    by simp_all
  note both = initializer_chain_logical_order[OF h, of default_build id row_major]
  from both[THEN conjunct1]
  obtain m' where
    run: "initializer_chain default_build 2 3 id [9, 9, 9, 9, 9, 9 :: int] 1 [2, 3, 4] = Inr m'"
    and w: "\<forall>n<length ((1::int) # [2, 3, 4]).
              Matrix_get default_build 2 3 m' (n div 3) (n mod 3) = Inr ((id 1 # [2, 3, 4]) ! n)"
    and k: "\<forall>r<2. \<forall>c<3. length ((1::int) # [2, 3, 4]) \<le> r * 3 + c
              \<longrightarrow> Matrix_get default_build 2 3 m' r c
                  = Matrix_get default_build 2 3 [9, 9, 9, 9, 9, 9] r c"
    by blast
  have "Matrix_get default_build 2 3 m' 1 0 = Inr 4"
    using w[rule_format, of 3] by simp
  moreover have "Matrix_get default_build 2 3 m' 1 1
                   = Matrix_get default_build 2 3 [9, 9, 9, 9, 9, 9] 1 1"
    using k[rule_format, of 1 1] by simp
  ultimately have "\<exists>m'. initializer_chain default_build 2 3 id [9, 9, 9, 9, 9, 9 :: int] 1 [2, 3, 4]
                      = Inr m'
      \<and> Matrix_get default_build 2 3 m' 1 0 = Inr 4
      \<and> Matrix_get default_build 2 3 m' 1 1 = Inr 9"
    using run
    by (simp add: Matrix_get_def Matrix_ref_def GS_ASSERT_def arr_read_def offset_def
                  default_build_def)
  moreover from both[THEN conjunct2, rule_format, of "[9, 9, 9, 9]"]
  have "\<exists>m'. initializer_chain row_major 2 2 id [9, 9, 9, 9] 1 [2, 3, 4] = Inr m'
         \<and> Matrix_get row_major 2 2 m' 1 0 = Inr (3 :: int)"
    by auto
  ultimately show ?thesis by blast
qed

subsection \<open>Vector division\<close>

text \<open>
  C2. The compound assignment \<open>a /= b\<close> divides component by component (for an unsigned
  integer scalar: the quotients when no component of \<open>b\<close> is zero, undefined otherwise),
  but the free operator \<open>a / b\<close> does not return the quotient: it returns the
  component-wise product. On the \<^verbatim>\<open>unsigned int\<close> vectors \<open>(6, 8, 10)\<close> and \<open>(2, 2, 2)\<close> the compound
  assignment gives \<open>(3, 4, 5)\<close> and the free operator gives \<open>(12, 16, 20)\<close>.
\<close>

theorem Vector3T_div_returns_product:
  fixes a b :: "'a::times Vector3T" and p q :: "'w::len word Vector3T"
  shows "Vector3T_div_assign unsigned_div p q
       = (if x q = 0 \<or> y q = 0 \<or> z q = 0 then Inl DivisionByZero
          else Inr \<lparr>x = x p div x q, y = y p div y q, z = z p div z q\<rparr>)
   \<and> Vector3T_div a b = \<lparr>x = x a * x b, y = y a * y b, z = z a * z b\<rparr>
   \<and> Vector3T_div_assign unsigned_div \<lparr>x = 6 :: 32 word, y = 8, z = 10\<rparr> \<lparr>x = 2, y = 2, z = 2\<rparr>
     = Inr \<lparr>x = 3, y = 4, z = 5\<rparr>
   \<and> Vector3T_div \<lparr>x = 6 :: 32 word, y = 8, z = 10\<rparr> \<lparr>x = 2, y = 2, z = 2\<rparr>
     = \<lparr>x = 12, y = 16, z = 20\<rparr>
   \<and> Vector3T_div \<lparr>x = 6 :: 32 word, y = 8, z = 10\<rparr> \<lparr>x = 2, y = 2, z = 2\<rparr>
     \<noteq> \<lparr>x = 3, y = 4, z = 5\<rparr>"
  by (simp add: Vector3T_div_assign_def unsigned_div_def Vector3T_div_def Vector3T_mul_assign_def)

subsection \<open>Identity\<close>

text \<open>
  C6. For a square matrix \<open>M\<close> of size \<open>N\<close> over a scalar type with exact arithmetic
  (a semiring with one), \<open>Identity()\<close> has ones on the diagonal and zeros elsewhere, and
  both \<open>Identity() * M\<close> and \<open>M * Identity()\<close> are \<open>M\<close>, element for element.
\<close>

theorem Identity_is_neutral:
  fixes M :: "'a::semiring_1 list"
  assumes M: "length M = N * N" and u: "length uninit = N * N" and u': "length uninit' = N * N"
  shows "\<exists>I. Identity b N N uninit = Inr I
           \<and> (\<forall>r<N. \<forall>c<N. Matrix_get b N N I r c = Inr (if r = c then 1 else 0))
           \<and> Matrix_mul b N N N uninit' I M = Inr M
           \<and> Matrix_mul b N N N uninit' M I = Inr M"
proof -
  from Identity_ok[OF u, of b]
  obtain I where I: "Identity b N N uninit = Inr I" and lenI: "length I = N * N"
    and entI: "\<And>r c. r < N \<Longrightarrow> c < N \<Longrightarrow> entry b N N I r c = (if r = c then 1 else 0)"
    by blast
  from Matrix_mul_result[OF lenI M u', of b]
  obtain L where L: "Matrix_mul b N N N uninit' I M = Inr L" and lenL: "length L = N * N"
    and entL: "\<And>r c. r < N \<Longrightarrow> c < N \<Longrightarrow> entry b N N L r c
                 = (\<Sum>i<N. entry b N N I r i * entry b N N M i c)"
    by blast
  from Matrix_mul_result[OF M lenI u', of b]
  obtain R where R: "Matrix_mul b N N N uninit' M I = Inr R" and lenR: "length R = N * N"
    and entR: "\<And>r c. r < N \<Longrightarrow> c < N \<Longrightarrow> entry b N N R r c
                 = (\<Sum>i<N. entry b N N M r i * entry b N N I i c)"
    by blast
  have "L = M"
  proof (rule entries_eqI[OF lenL M])
    fix r c assume r: "r < N" and c: "c < N"
    have "(\<Sum>i<N. entry b N N I r i * entry b N N M i c)
            = (\<Sum>i<N. (if r = i then 1 else 0) * entry b N N M i c)"
      by (rule sum.cong) (simp_all add: entI r)
    then show "entry b N N L r c = entry b N N M r c"
      by (simp add: entL r c sum_identity_left)
  qed
  moreover have "R = M"
  proof (rule entries_eqI[OF lenR M])
    fix r c assume r: "r < N" and c: "c < N"
    have "(\<Sum>i<N. entry b N N M r i * entry b N N I i c)
            = (\<Sum>i<N. entry b N N M r i * (if i = c then 1 else 0))"
      by (rule sum.cong) (simp_all add: entI c)
    then show "entry b N N R r c = entry b N N M r c"
      by (simp add: entR r c sum_identity_right)
  qed
  ultimately show ?thesis using I L R lenI entI by (simp add: Matrix_get_ok)
qed

theorem Identity_is_neutral_witness:
  "\<exists>I. Identity default_build 2 2 [7, 7, 7, 7] = Inr I
     \<and> Matrix_mul default_build 2 2 2 [8, 8, 8, 8] I [1, 2, 3, 4 :: int] = Inr [1, 2, 3, 4]
     \<and> Matrix_mul default_build 2 2 2 [8, 8, 8, 8] [1, 2, 3, 4 :: int] I = Inr [1, 2, 3, 4]"
proof -
  have "length [1, 2, 3, 4 :: int] = 2 * 2" "length [7, 7, 7, 7 :: int] = 2 * 2"
       "length [8, 8, 8, 8 :: int] = 2 * 2"
    by simp_all
  from Identity_is_neutral[OF this] show ?thesis by blast
qed


subsection \<open>Out-of-place transposition\<close>

text \<open>
  C7. For a \<open>Rows \<times> Cols\<close> matrix \<open>M\<close>, \<open>M.Transposed()\<close> is the \<open>Cols \<times> Rows\<close> matrix with
  \<open>(c, r) = M(r, c)\<close>, and transposing it again returns \<open>M\<close> exactly. In particular the
  transpose of the matrix with rows \<open>(1,2,3)\<close>, \<open>(4,5,6)\<close> is the matrix with rows \<open>(1,4)\<close>,
  \<open>(2,5)\<close>, \<open>(3,6)\<close>, in every build.
\<close>

theorem Transposed_twice:
  fixes M :: "'a::zero list"
  assumes M: "length M = Rows * Cols" and u: "length uninit = Cols * Rows"
    and u': "length uninit' = Rows * Cols"
  shows "(\<exists>T. Transposed b Rows Cols uninit M = Inr T \<and> length T = Cols * Rows
            \<and> (\<forall>r<Rows. \<forall>c<Cols. Matrix_get b Cols Rows T c r = Matrix_get b Rows Cols M r c)
            \<and> Transposed b Cols Rows uninit' T = Inr M)
       \<and> (\<forall>uA uT :: int list. length uA = 6 \<and> length uT = 6 \<longrightarrow>
            (\<exists>A T. initializer_chain b' 2 3 id uA 1 [2, 3, 4, 5, 6] = Inr A
               \<and> Transposed b' 2 3 uT A = Inr T
               \<and> Matrix_get b' 3 2 T 0 0 = Inr 1 \<and> Matrix_get b' 3 2 T 0 1 = Inr 4
               \<and> Matrix_get b' 3 2 T 1 0 = Inr 2 \<and> Matrix_get b' 3 2 T 1 1 = Inr 5
               \<and> Matrix_get b' 3 2 T 2 0 = Inr 3 \<and> Matrix_get b' 3 2 T 2 1 = Inr 6))"
proof (intro conjI allI impI)
  from Transposed_ok[OF M u, of b]
  obtain T where T: "Transposed b Rows Cols uninit M = Inr T" and lenT: "length T = Cols * Rows"
    and entT: "\<And>r c. r < Rows \<Longrightarrow> c < Cols \<Longrightarrow> entry b Cols Rows T c r = entry b Rows Cols M r c"
    by blast
  from Transposed_ok[OF lenT u', of b]
  obtain T' where T': "Transposed b Cols Rows uninit' T = Inr T'"
    and lenT': "length T' = Rows * Cols"
    and entT': "\<And>r c. r < Cols \<Longrightarrow> c < Rows \<Longrightarrow> entry b Rows Cols T' c r = entry b Cols Rows T r c"
    by blast
  have "T' = M"
    by (rule entries_eqI[OF lenT' M, of b]) (simp add: entT' entT)
  then show "\<exists>T. Transposed b Rows Cols uninit M = Inr T \<and> length T = Cols * Rows
          \<and> (\<forall>r<Rows. \<forall>c<Cols. Matrix_get b Cols Rows T c r = Matrix_get b Rows Cols M r c)
          \<and> Transposed b Cols Rows uninit' T = Inr M"
    using T lenT T' by (simp add: Matrix_get_ok M entT)
next
  fix uA uT :: "int list"
  assume "length uA = 6 \<and> length uT = 6"
  then have uA: "length uA = 6" and uT: "length uT = 3 * 2" by simp_all
  from initializer_chain_ok[of uA 2 3 1 "[2, 3, 4, 5, 6]" b' id] uA
  obtain A where A: "initializer_chain b' 2 3 id uA 1 [2, 3, 4, 5, 6] = Inr A"
    and lenA: "length A = 2 * 3"
    and entA: "\<And>r c. r < 2 \<Longrightarrow> c < 3 \<Longrightarrow> entry b' 2 3 A r c
                 = (if r * 3 + c < 6 then [1, 2, 3, 4, 5, 6] ! (r * 3 + c) else entry b' 2 3 uA r c)"
    by auto
  from Transposed_ok[OF lenA uT, of b']
  obtain T where T: "Transposed b' 2 3 uT A = Inr T" and lenT: "length T = 3 * 2"
    and entT: "\<And>r c. r < 2 \<Longrightarrow> c < 3 \<Longrightarrow> entry b' 3 2 T c r = entry b' 2 3 A r c"
    by blast
  show "\<exists>A T. initializer_chain b' 2 3 id uA 1 [2, 3, 4, 5, 6] = Inr A
               \<and> Transposed b' 2 3 uT A = Inr T
               \<and> Matrix_get b' 3 2 T 0 0 = Inr 1 \<and> Matrix_get b' 3 2 T 0 1 = Inr 4
               \<and> Matrix_get b' 3 2 T 1 0 = Inr 2 \<and> Matrix_get b' 3 2 T 1 1 = Inr 5
               \<and> Matrix_get b' 3 2 T 2 0 = Inr 3 \<and> Matrix_get b' 3 2 T 2 1 = Inr 6"
    using A T lenT by (simp add: Matrix_get_ok entT entA)
qed

theorem Transposed_twice_witness:
  "(\<exists>T. Transposed default_build 2 3 [9, 9, 9, 9, 9, 9] [1, 4, 2, 5, 3, 6 :: int] = Inr T
      \<and> Transposed default_build 3 2 [8, 8, 8, 8, 8, 8] T = Inr [1, 4, 2, 5, 3, 6])
   \<and> (\<exists>A T. initializer_chain row_major 2 3 id [0, 0, 0, 0, 0, 0] 1 [2, 3, 4, 5, 6] = Inr A
         \<and> Transposed row_major 2 3 [9, 9, 9, 9, 9, 9] A = Inr T
         \<and> Matrix_get row_major 3 2 T 2 1 = Inr (6 :: int))"
proof -
  have h: "length [1, 4, 2, 5, 3, 6 :: int] = 2 * 3" "length [9, 9, 9, 9, 9, 9 :: int] = 3 * 2"
       "length [8, 8, 8, 8, 8, 8 :: int] = 2 * 3"
    by simp_all
  note both = Transposed_twice[OF h, of default_build row_major]
  from both[THEN conjunct1]
  have "\<exists>T. Transposed default_build 2 3 [9, 9, 9, 9, 9, 9] [1, 4, 2, 5, 3, 6 :: int] = Inr T
      \<and> Transposed default_build 3 2 [8, 8, 8, 8, 8, 8] T = Inr [1, 4, 2, 5, 3, 6]"
    by blast
  moreover from both[THEN conjunct2, rule_format, of "[0, 0, 0, 0, 0, 0]" "[9, 9, 9, 9, 9, 9]"]
  have "\<exists>A T. initializer_chain row_major 2 3 id [0, 0, 0, 0, 0, 0] 1 [2, 3, 4, 5, 6] = Inr A
         \<and> Transposed row_major 2 3 [9, 9, 9, 9, 9, 9] A = Inr T
         \<and> Matrix_get row_major 3 2 T 2 1 = Inr (6 :: int)"
    by auto
  ultimately show ?thesis by blast
qed

subsection \<open>In-place transposition\<close>

text \<open>
  C3. For a square matrix \<open>M\<close>, the in-place \<open>M.Transpose()\<close> accesses no slot outside the
  array and leaves exactly the matrix that \<open>M.Transposed()\<close> returns: afterwards
  \<open>M(r, c)\<close> is the old \<open>M(c, r)\<close>, under either storage layout. The calls of
  \<^verbatim>\<open>std::swap\<close> it makes are \<open>Transpose_swaps\<close>; as unordered pairs of slots they are
  pairwise different and are exactly the pairs of slots of \<open>(r, c)\<close> and \<open>(c, r)\<close> with
  \<open>r < c\<close>, so each off-diagonal pair is swapped exactly once.
\<close>

theorem Transpose_in_place:
  fixes M :: "'a::zero list"
  assumes M: "length M = N * N" and u: "length uninit = N * N"
  shows "\<exists>T. Transpose N N M = Inr T \<and> Transposed b N N uninit M = Inr T
           \<and> (\<forall>r<N. \<forall>c<N. Matrix_get b N N T r c = Matrix_get b N N M c r)
           \<and> swap_all (Transpose_swaps N) M = Inr T
           \<and> distinct (map (\<lambda>(p, q). {p, q}) (Transpose_swaps N))
           \<and> set (map (\<lambda>(p, q). {p, q}) (Transpose_swaps N))
               = {{offset b N N r c, offset b N N c r} | r c. r < c \<and> c < N}"
proof -
  from Transpose_entries[OF M, of b]
  obtain T where T: "Transpose N N M = Inr T" and lenT: "length T = N * N"
    and entT: "\<And>r c. r < N \<Longrightarrow> c < N \<Longrightarrow> entry b N N T r c = entry b N N M c r"
    by blast
  from Transposed_ok[OF M u, of b]
  obtain T' where T': "Transposed b N N uninit M = Inr T'" and lenT': "length T' = N * N"
    and entT': "\<And>r c. r < N \<Longrightarrow> c < N \<Longrightarrow> entry b N N T' c r = entry b N N M r c"
    by blast
  have "T' = T"
    by (rule entries_eqI[OF lenT' lenT, of b]) (simp add: entT entT')
  moreover have "swap_all (Transpose_swaps N) M = Inr T"
    using T by (simp only: Transpose_swap_all)
  ultimately show ?thesis
    using T T' lenT M Transpose_swaps_pairs_distinct[of N] Transpose_swaps_pairs_set[of N b]
    by (simp add: Matrix_get_ok entT)
qed

theorem Transpose_in_place_witness:
  "Transpose 3 3 [1, 2, 3, 4, 5, 6, 7, 8, 9 :: int] = Inr [1, 4, 7, 2, 5, 8, 3, 6, 9]
   \<and> Transposed default_build 3 3 [0, 0, 0, 0, 0, 0, 0, 0, 0] [1, 2, 3, 4, 5, 6, 7, 8, 9 :: int]
       = Transpose 3 3 [1, 2, 3, 4, 5, 6, 7, 8, 9 :: int]"
proof -
  have eval: "Transpose 3 3 [1, 2, 3, 4, 5, 6, 7, 8, 9 :: int] = Inr [1, 4, 7, 2, 5, 8, 3, 6, 9]"
    by code_simp
  have "length [1, 2, 3, 4, 5, 6, 7, 8, 9 :: int] = 3 * 3"
       "length [0, 0, 0, 0, 0, 0, 0, 0, 0 :: int] = 3 * 3"
    by simp_all
  from Transpose_in_place[OF this, of default_build] eval show ?thesis by auto
qed

subsection \<open>RotateFree\<close>



subsection \<open>MakeInverse\<close>

text \<open>
  C9. For a square matrix \<open>M\<close>, \<open>M.MakeInverse()\<close> calls the inversion collaborator with
  \<open>M\<close> itself as the output and an exact copy of \<open>M\<close> as the input, and returns the
  collaborator's flag with the matrix the collaborator left. When the call honours the
  collaborator's contract, the flag is true and \<open>M\<close> holds the inverse of its prior
  value if that value is invertible, and the flag is false if it is singular.
\<close>

theorem MakeInverse_returns_flag:
  fixes M :: "'a::{zero_neq_one,plus,times} list"
  assumes M: "length M = N * N" and u: "length uninit = N * N"
  shows "MakeInverse N N Inverse_fn uninit M = Inr (Inverse_fn M M)
       \<and> (Inverse_contract b N Inverse_fn M M \<longrightarrow>
            (invertible b N M \<longrightarrow>
               (\<exists>M'. MakeInverse N N Inverse_fn uninit M = Inr (True, M')
                  \<and> is_inverse_of b N M' M))
          \<and> (\<not> invertible b N M \<longrightarrow>
               (\<exists>M'. MakeInverse N N Inverse_fn uninit M = Inr (False, M'))))"
proof (intro conjI impI)
  show run: "MakeInverse N N Inverse_fn uninit M = Inr (Inverse_fn M M)"
    by (rule MakeInverse_ok[OF M u])
  {
    assume c: "Inverse_contract b N Inverse_fn M M" and inv: "invertible b N M"
    then have "fst (Inverse_fn M M)" "is_inverse_of b N (snd (Inverse_fn M M)) M"
      by (simp_all add: Inverse_contract_def)
    then show "\<exists>M'. MakeInverse N N Inverse_fn uninit M = Inr (True, M')
                 \<and> is_inverse_of b N M' M"
      using run by (cases "Inverse_fn M M") simp
  }
  {
    assume c: "Inverse_contract b N Inverse_fn M M" and inv: "\<not> invertible b N M"
    then have "\<not> fst (Inverse_fn M M)" by (simp add: Inverse_contract_def)
    then show "\<exists>M'. MakeInverse N N Inverse_fn uninit M = Inr (False, M')"
      using run by (cases "Inverse_fn M M") simp
  }
qed

theorem MakeInverse_returns_flag_witness:
  "MakeInverse 2 2 (\<lambda>out inp. (True, [1, - 1, - 1, 2])) [9, 9, 9, 9] [2, 1, 1, 1 :: int]
     = Inr (True, [1, - 1, - 1, 2])
   \<and> is_inverse_of row_major 2 [1, - 1, - 1, 2] [2, 1, 1, 1 :: int]"
proof -
  let ?f = "\<lambda>(out :: int list) (inp :: int list). (True, [1, - 1, - 1, 2 :: int])"
  have inv: "is_inverse_of row_major 2 [1, - 1, - 1, 2] [2, 1, 1, 1 :: int]"
    by code_simp
  then have i: "invertible row_major 2 [2, 1, 1, 1 :: int]"
    unfolding invertible_def by blast
  have c: "Inverse_contract row_major 2 ?f [2, 1, 1, 1] [2, 1, 1, 1]"
    using inv i by (simp add: Inverse_contract_def)
  have "length [2, 1, 1, 1 :: int] = 2 * 2" "length [9, 9, 9, 9 :: int] = 2 * 2" by simp_all
  from MakeInverse_returns_flag[OF this, of ?f row_major] c i inv
  show ?thesis by auto
qed


subsection \<open>Inverse\<close>

text \<open>
  C10. For a square matrix \<open>M\<close>, the const member \<open>M.Inverse()\<close> leaves \<open>M\<close> as it was and
  returns the matrix that \<open>MakeInverse\<close> leaves in a copy of \<open>M\<close>. The flag of the
  inversion is dropped: the returned matrix is whatever the collaborator left in its
  output, and a collaborator that leaves the same matrix with a different flag gives
  the same result.
\<close>

theorem Inverse_discards_flag:
  assumes M: "length M = N * N" and u: "length uninit = N * N" and u': "length uninit' = N * N"
  shows "Inverse N N Inverse_fn uninit uninit' M = Inr (M, snd (Inverse_fn M M))
       \<and> (\<exists>copy ok inv. Matrix_copy N N uninit M = Inr copy
             \<and> MakeInverse N N Inverse_fn uninit' copy = Inr (ok, inv)
             \<and> Inverse N N Inverse_fn uninit uninit' M = Inr (M, inv))
       \<and> (\<forall>Inverse_fn'. snd (Inverse_fn' M M) = snd (Inverse_fn M M) \<longrightarrow>
             Inverse N N Inverse_fn' uninit uninit' M = Inverse N N Inverse_fn uninit uninit' M)"
proof -
  have copy: "Matrix_copy N N uninit M = Inr M" by (rule Matrix_copy_ok[OF u M])
  have run: "Inverse N N f uninit uninit' M = Inr (M, snd (f M M))" for f
    by (simp add: Inverse_def copy MakeInverse_ok[OF M u'] split: prod.splits)
  have mk: "MakeInverse N N Inverse_fn uninit' M
          = Inr (fst (Inverse_fn M M), snd (Inverse_fn M M))"
    by (simp add: MakeInverse_ok[OF M u'])
  have "\<exists>copy ok inv. Matrix_copy N N uninit M = Inr copy
          \<and> MakeInverse N N Inverse_fn uninit' copy = Inr (ok, inv)
          \<and> Inverse N N Inverse_fn uninit uninit' M = Inr (M, inv)"
    using copy mk run[of Inverse_fn] by blast
  then show ?thesis using run by simp
qed

theorem Inverse_discards_flag_witness:
  "Inverse 2 2 (\<lambda>out inp. (False, [5, 5, 5, 5])) [8, 8, 8, 8] [9, 9, 9, 9] [1, 2, 2, 4 :: int]
     = Inr ([1, 2, 2, 4], [5, 5, 5, 5])
   \<and> Inverse 2 2 (\<lambda>out inp. (True, [5, 5, 5, 5])) [8, 8, 8, 8] [9, 9, 9, 9] [1, 2, 2, 4 :: int]
     = Inr ([1, 2, 2, 4], [5, 5, 5, 5])"
proof -
  have "length [1, 2, 2, 4 :: int] = 2 * 2" "length [8, 8, 8, 8 :: int] = 2 * 2"
       "length [9, 9, 9, 9 :: int] = 2 * 2"
    by simp_all
  from Inverse_discards_flag[OF this, of "\<lambda>out inp. (False, [5, 5, 5, 5])"]
  show ?thesis by simp
qed

subsection \<open>Storage layout\<close>




end
